theory Spec2Isabelle
  imports Main "HOL-Library.AList"
begin

section \<open>JavaScript values\<close>

text \<open>
  The values that flow through \<^verbatim>\<open>src/index.js\<close>: the Lambda payload, what
  \<^verbatim>\<open>JSON.parse\<close> yields and what a parser's \<^verbatim>\<open>parse\<close> returns. They are finite
  trees. An object is the list of its own enumerable properties in insertion order.
  A number is abstracted to an integer or NaN: the handler only tests numbers for
  truthiness, never computes with them.
\<close>

datatype jsvalue =
    JUndefined
  | JNull
  | JBool bool
  | JNum int
  | JNaN
  | JStr string
  | JArr "jsvalue list"
  | JObj "(string \<times> jsvalue) list"

text \<open>What can be thrown: the TypeError of a property read on null or undefined, or any
  value thrown by a parser or by the Slack client.\<close>

datatype jserror = TypeError | Thrown jsvalue

text \<open>The condition of \<^verbatim>\<open>if (message)\<close>.\<close>

fun truthy :: "jsvalue \<Rightarrow> bool" where
  "truthy JUndefined = False"
| "truthy JNull = False"
| "truthy (JBool b) = b"
| "truthy (JNum n) = (n \<noteq> 0)"
| "truthy JNaN = False"
| "truthy (JStr s) = (s \<noteq> [])"
| "truthy (JArr xs) = True"
| "truthy (JObj kvs) = True"

text \<open>lodash's \<^verbatim>\<open>_.isEmpty\<close> on these values: null and undefined are empty, a string or
  an array is empty when its length is 0, and anything else is empty when it has no own
  enumerable string keyed property (so every boolean and every number is).\<close>

fun isEmpty :: "jsvalue \<Rightarrow> bool" where
  "isEmpty JUndefined = True"
| "isEmpty JNull = True"
| "isEmpty (JBool b) = True"
| "isEmpty (JNum n) = True"
| "isEmpty JNaN = True"
| "isEmpty (JStr s) = (s = [])"
| "isEmpty (JArr xs) = (xs = [])"
| "isEmpty (JObj kvs) = (kvs = [])"

fun isString :: "jsvalue \<Rightarrow> bool" where
  "isString (JStr s) = True"
| "isString v = False"

text \<open>\<^verbatim>\<open>event.Records\<close>: a property read throws on null and undefined, yields the own
  property of an object, and is undefined on every other value.\<close>

fun get_Records :: "jsvalue \<Rightarrow> jserror + jsvalue" where
  "get_Records JUndefined = Inl TypeError"
| "get_Records JNull = Inl TypeError"
| "get_Records (JObj kvs) =
     Inr (case map_of kvs ''Records'' of None \<Rightarrow> JUndefined | Some v \<Rightarrow> v)"
| "get_Records v = Inr JUndefined"

text \<open>\<^verbatim>\<open>_.assign(target, ...sources)\<close>: every own property of every source, in order, is
  written to the target; writing an existing key keeps its position and writing a new key
  appends it. Only objects have properties to copy here.\<close>

fun ownProperties :: "jsvalue \<Rightarrow> (string \<times> jsvalue) list" where
  "ownProperties (JObj kvs) = kvs"
| "ownProperties v = []"

definition assign :: "(string \<times> jsvalue) list \<Rightarrow> jsvalue list \<Rightarrow> jsvalue" where
  "assign target sources =
     JObj (foldl (\<lambda>t src. foldl (\<lambda>t' (k, v). AList.update k v t') t (ownProperties src))
             target sources)"

text \<open>The decimal text of a for-in key of an array.\<close>

fun string_of_nat :: "nat \<Rightarrow> string" where
  "string_of_nat n =
     (if n < 10 then [''0123456789'' ! n]
      else string_of_nat (n div 10) @ [''0123456789'' ! (n mod 10)])"

section \<open>Collaborators and observable actions\<close>

text \<open>
  A parser class is one entry of the module's \<^verbatim>\<open>parsers\<close> table. Its constructor may
  throw, and its \<^verbatim>\<open>parse\<close> either returns a value or throws (a rejected promise is a
  throw at the \<^verbatim>\<open>await\<close>). The parser modules themselves are not part of this file's
  source; they are taken as deterministic functions of the event.
\<close>

record parser_class =
  construct :: "jserror option"
  parse :: "jsvalue \<Rightarrow> jserror + jsvalue"

text \<open>What the handler needs from outside: the module level \<^verbatim>\<open>parsers\<close> table of
  (name, class) pairs, \<^verbatim>\<open>Slack.postMessage\<close> (\<open>Some e\<close> when it throws \<open>e\<close>), and
  \<^verbatim>\<open>JSON.parse\<close> (\<open>None\<close> when it throws).\<close>

record env =
  module_parsers :: "(string \<times> parser_class) list"
  postMessage :: "jsvalue \<Rightarrow> jserror option"
  JSON_parse :: "string \<Rightarrow> jsvalue option"

text \<open>An argument printed after the text of a console call: \<open>Json v\<close> stands for
  \<^verbatim>\<open>JSON.stringify(v, null, 2)\<close>, \<open>Err e\<close> for a caught error.\<close>

datatype logarg = Json jsvalue | Err jserror

text \<open>Everything observable, in the order it happens. \<open>Construct i\<close> and \<open>Parse i event\<close>
  are \<^verbatim>\<open>new this.parsers[i]()\<close> and \<^verbatim>\<open>parser.parse(event)\<close>; \<open>ProcessEvent event\<close>
  marks an entry into \<^verbatim>\<open>processEvent\<close>.\<close>

datatype action =
    ConsoleLog string "logarg list"
  | ConsoleError string "logarg list"
  | Construct nat
  | Parse nat jsvalue
  | ProcessEvent jsvalue
  | PostMessage jsvalue

section \<open>LambdaHandler\<close>

record LambdaHandler =
  parsers :: "parser_class list"
  parserNames :: "string list"
  lastParser :: "string option"

text \<open>The constructor clones the table into two arrays of the same length;
  \<open>lastParser = None\<close> is \<^verbatim>\<open>null\<close>.\<close>

definition new_LambdaHandler :: "(string \<times> parser_class) list \<Rightarrow> LambdaHandler" where
  "new_LambdaHandler table =
     \<lparr>parsers = map snd table, parserNames = map fst table, lastParser = None\<rparr>"

text \<open>What \<^verbatim>\<open>processEvent\<close> returns: the parser instance with \<^verbatim>\<open>slackMessage\<close> and
  \<^verbatim>\<open>name\<close> set, \<^verbatim>\<open>null\<close>, or (falling off the loop) \<^verbatim>\<open>undefined\<close>.\<close>

datatype pe_return = RetParser jsvalue string | RetNull | RetUndefined

text \<open>The body of the for-in loop of \<^verbatim>\<open>processEvent\<close>, from index \<open>i\<close> on. The result is
  the return value, the final \<^verbatim>\<open>this.lastParser\<close> and the actions performed.\<close>

fun parser_loop ::
  "nat \<Rightarrow> (string \<times> parser_class) list \<Rightarrow> jsvalue \<Rightarrow> string option
     \<Rightarrow> pe_return \<times> string option \<times> action list" where
  "parser_loop i [] event lp = (RetUndefined, lp, [])"
| "parser_loop i ((parserName, P) # rest) event lp =
     (case construct P of
        Some e \<Rightarrow>
          (case parser_loop (Suc i) rest event (Some parserName) of (r, lp', acts) \<Rightarrow>
             (r, lp',
              [Construct i,
               ConsoleError (''Error parsing event [parser:'' @ parserName @ '']:'') [Err e]]
              @ acts))
      | None \<Rightarrow>
          (case parse P event of
             Inl e \<Rightarrow>
               (case parser_loop (Suc i) rest event (Some parserName) of (r, lp', acts) \<Rightarrow>
                  (r, lp',
                   [Construct i, Parse i event,
                    ConsoleError (''Error parsing event [parser:'' @ parserName @ '']:'') [Err e]]
                   @ acts))
           | Inr message \<Rightarrow>
               if truthy message then
                 if message = JBool True \<or> isEmpty message
                 then (RetNull, Some parserName, [Construct i, Parse i event])
                 else (RetParser message parserName, Some parserName,
                       [Construct i, Parse i event])
               else
                 (case parser_loop (Suc i) rest event (Some parserName) of (r, lp', acts) \<Rightarrow>
                    (r, lp', [Construct i, Parse i event] @ acts))))"

text \<open>\<^verbatim>\<open>processEvent\<close>: index \<open>i\<close> runs over \<^verbatim>\<open>this.parsers\<close> and reads
  \<^verbatim>\<open>this.parserNames[i]\<close>. The constructor fills the two arrays in lockstep and nothing
  in this file changes them afterwards, so the loop is taken over the pairs; a handler
  whose \<^verbatim>\<open>parsers\<close> array is the longer one is outside what this models.\<close>

definition processEvent ::
  "LambdaHandler \<Rightarrow> jsvalue \<Rightarrow> pe_return \<times> LambdaHandler \<times> action list" where
  "processEvent h event =
     (case parser_loop 0 (zip (parserNames h) (parsers h)) event (lastParser h) of
        (r, lp', acts) \<Rightarrow> (r, h\<lparr>lastParser := lp'\<rparr>, ProcessEvent event # acts))"

text \<open>The condition of \<^verbatim>\<open>else if (handler.lastParser)\<close>: null and the empty string are
  falsy.\<close>

fun truthy_name :: "string option \<Rightarrow> bool" where
  "truthy_name None = False"
| "truthy_name (Some s) = (s \<noteq> [])"

text \<open>Lines 101 to 103: \<^verbatim>\<open>_.assign({}, event, {Records: [event.Records[i]]})\<close>, with \<open>r\<close>
  the record \<^verbatim>\<open>event.Records[i]\<close>.\<close>

definition singleRecordEvent :: "jsvalue \<Rightarrow> jsvalue \<Rightarrow> jsvalue" where
  "singleRecordEvent event r = assign [] [event, JObj [(''Records'', JArr [r])]]"

text \<open>The loop over \<^verbatim>\<open>event.Records\<close> (lines 99 to 117), from index \<open>i\<close> on, with the
  records still to process. An error thrown by \<^verbatim>\<open>Slack.postMessage\<close> leaves the loop.\<close>

fun records_loop ::
  "env \<Rightarrow> LambdaHandler \<Rightarrow> jsvalue \<Rightarrow> nat \<Rightarrow> jsvalue list \<Rightarrow> jserror option \<times> action list" where
  "records_loop E h event i [] = (None, [])"
| "records_loop E h event i (r # rs) =
     (case processEvent h (singleRecordEvent event r) of (parser, h', acts) \<Rightarrow>
        (case parser of
           RetParser message name \<Rightarrow>
             (let sending =
                    [ConsoleLog (''Sending Slack message from SNS-Parser['' @ name @ '']:'')
                       [Json message],
                     PostMessage message] in
              case postMessage E message of
                Some e \<Rightarrow> (Some e, acts @ sending)
              | None \<Rightarrow>
                  (case records_loop E h' event (Suc i) rs of (res, later) \<Rightarrow>
                     (res, acts @ sending @ later)))
         | _ \<Rightarrow>
             (let diag =
                    (case lastParser h' of
                       Some n \<Rightarrow>
                         if n \<noteq> [] then
                           ConsoleError (''Parser force-ignoring SNS event['' @ string_of_nat i
                                           @ '']: '' @ n) []
                         else ConsoleLog (''No parser matched SNS event['' @ string_of_nat i
                                            @ '']'') []
                     | None \<Rightarrow>
                         ConsoleLog (''No parser matched SNS event['' @ string_of_nat i
                                       @ '']'') []) in
              case records_loop E h' event (Suc i) rs of (res, later) \<Rightarrow>
                (res, acts @ [diag] @ later))))"

text \<open>The single event branch (lines 120 to 131). The diagnostic interpolates
  \<^verbatim>\<open>handler.parserName\<close>, a property that a LambdaHandler does not have, so the text holds
  \<^verbatim>\<open>undefined\<close>.\<close>

definition single_event ::
  "env \<Rightarrow> LambdaHandler \<Rightarrow> jsvalue \<Rightarrow> jserror option \<times> action list" where
  "single_event E h event =
     (case processEvent h event of (parser, h', acts) \<Rightarrow>
        (case parser of
           RetParser message name \<Rightarrow>
             (postMessage E message,
              acts @ [ConsoleLog (''Sending Slack message from Parser['' @ name @ '']:'')
                        [Json message],
                      PostMessage message])
         | _ \<Rightarrow>
             if truthy_name (lastParser h')
             then (None, acts @ [ConsoleError ''Parser[undefined] is force-ignoring event'' []])
             else (None, acts @ [ConsoleLog ''No parser matched event'' []])))"

text \<open>The body of the \<^verbatim>\<open>try\<close> block (lines 95 to 132): \<open>Some e\<close> when it throws \<open>e\<close>.\<close>

definition try_body :: "env \<Rightarrow> jsvalue \<Rightarrow> jserror option \<times> action list" where
  "try_body E event =
     (let handler = new_LambdaHandler (module_parsers E) in
      case get_Records event of
        Inl e \<Rightarrow> (Some e, [])
      | Inr (JArr records) \<Rightarrow>
          if length records > 1 then records_loop E handler event 0 records
          else single_event E handler event
      | Inr v \<Rightarrow> single_event E handler event)"

text \<open>Lines 85 to 92: a string payload is decoded; a payload that does not decode is kept
  as it is.\<close>

definition decode_event :: "env \<Rightarrow> jsvalue \<Rightarrow> jsvalue \<times> action list" where
  "decode_event E event =
     (case event of
        JStr s \<Rightarrow>
          (case JSON_parse E s of
             Some v \<Rightarrow> (v, [])
           | None \<Rightarrow>
               (event, [ConsoleError (''Error parsing event JSON (continuing...): '' @ s) []]))
      | _ \<Rightarrow> (event, []))"

text \<open>How the invocation ends: \<^verbatim>\<open>callback()\<close> or \<^verbatim>\<open>callback(e)\<close>.\<close>

datatype callback = Success | Failure jserror

text \<open>Lines 134 to 139: \<^verbatim>\<open>callback()\<close> when the \<^verbatim>\<open>try\<close> block completes; when it throws,
  the \<^verbatim>\<open>catch\<close> block logs the error and passes it to the callback.\<close>

definition report :: "jserror option \<times> action list \<Rightarrow> callback \<times> action list" where
  "report outcome =
     (case outcome of
        (None, acts) \<Rightarrow> (Success, acts)
      | (Some e, acts) \<Rightarrow> (Failure e, acts @ [ConsoleLog ''ERROR:'' [Err e]]))"

text \<open>\<^verbatim>\<open>LambdaHandler.handler\<close>. The context object is the runtime's and is not
  modelled.\<close>

definition handler :: "env \<Rightarrow> jsvalue \<Rightarrow> callback \<times> action list" where
  "handler E event =
     (case decode_event E event of (event', decoding) \<Rightarrow>
        (case report (try_body E event') of (cb, acts) \<Rightarrow>
           (cb, [ConsoleLog ''Incoming Message:'' [Json event]] @ decoding @ acts)))"

section \<open>The fan-out on an explicit store\<close>

text \<open>
  Objects and arrays are mutable and shared by reference, and \<^verbatim>\<open>_.assign\<close> writes to its
  target. To follow what lines 99 to 103 write, and where, the store is explicit here: a
  list of objects, an address being a position in it, so that allocation appends. A
  property or an element holds a primitive or a reference.
\<close>

type_synonym addr = nat

datatype hvalue = HUndefined | HNull | HBool bool | HNum int | HNaN | HStr string | Ref addr

datatype hobject = HObj "(string \<times> hvalue) list" | HArr "hvalue list"

type_synonym heap = "hobject list"

definition alloc :: "heap \<Rightarrow> hobject \<Rightarrow> addr \<times> heap" where
  "alloc h obj = (length h, h @ [obj])"

text \<open>The own properties of the object at an address, the read \<^verbatim>\<open>o.k\<close> of one of them
  (\<^verbatim>\<open>undefined\<close> when absent), and the read \<^verbatim>\<open>v[i]\<close> of an array element.\<close>

fun properties :: "heap \<Rightarrow> addr \<Rightarrow> (string \<times> hvalue) list" where
  "properties h a =
     (if a < length h then (case h ! a of HObj kvs \<Rightarrow> kvs | HArr vs \<Rightarrow> []) else [])"

definition property :: "heap \<Rightarrow> addr \<Rightarrow> string \<Rightarrow> hvalue" where
  "property h a k = (case map_of (properties h a) k of None \<Rightarrow> HUndefined | Some v \<Rightarrow> v)"

fun element :: "heap \<Rightarrow> hvalue \<Rightarrow> nat \<Rightarrow> hvalue" where
  "element h (Ref a) i =
     (if a < length h
      then (case h ! a of
              HArr vs \<Rightarrow> if i < length vs then vs ! i else HUndefined
            | HObj kvs \<Rightarrow> HUndefined)
      else HUndefined)"
| "element h v i = HUndefined"

text \<open>\<^verbatim>\<open>_.assign(target, ...sources)\<close> on the store: the one object written is the target.\<close>

definition assign_heap :: "heap \<Rightarrow> addr \<Rightarrow> addr list \<Rightarrow> heap" where
  "assign_heap h target sources =
     h[target :=
         HObj (foldl (\<lambda>t src. foldl (\<lambda>t' (k, v). AList.update k v t') t (properties h src))
                 (properties h target) sources)]"

text \<open>Lines 101 to 103 on the store, for the record value \<open>r\<close>: the literal \<^verbatim>\<open>{}\<close>, the
  array literal \<^verbatim>\<open>[event.Records[i]]\<close> and the literal \<^verbatim>\<open>{Records: ...}\<close> are allocated
  (three new objects; which address each gets cannot be observed), then \<^verbatim>\<open>_.assign\<close> runs.
  The result is the address of \<^verbatim>\<open>singleRecordEvent\<close>.\<close>

definition derive :: "heap \<Rightarrow> addr \<Rightarrow> hvalue \<Rightarrow> addr \<times> heap" where
  "derive h event r =
     (case alloc h (HObj []) of (target, h1) \<Rightarrow>
      case alloc h1 (HArr [r]) of (arr, h2) \<Rightarrow>
      case alloc h2 (HObj [(''Records'', Ref arr)]) of (src, h3) \<Rightarrow>
        (target, assign_heap h3 target [event, src]))"

text \<open>The loop over the indices of \<^verbatim>\<open>event.Records\<close>, as far as the store goes: each pass
  reads \<^verbatim>\<open>event.Records[i]\<close> from the store as it then is and builds the derived event.
  The parsers and the Slack client are taken not to write to the objects they are handed,
  as everywhere in this development. The result is the addresses of the derived events, in
  order, and the final store.\<close>

fun fan_out_heap :: "heap \<Rightarrow> addr \<Rightarrow> nat list \<Rightarrow> addr list \<times> heap" where
  "fan_out_heap h event [] = ([], h)"
| "fan_out_heap h event (i # is) =
     (case derive h event (element h (property h event ''Records'') i) of (d, h') \<Rightarrow>
      case fan_out_heap h' event is of (ds, h'') \<Rightarrow> (d # ds, h''))"

text \<open>The value a reference stands for, read off the store to a given depth: \<open>None\<close> when
  the depth does not suffice or a reference dangles.\<close>

fun reify :: "nat \<Rightarrow> heap \<Rightarrow> hvalue \<Rightarrow> jsvalue option" where
  "reify n h HUndefined = Some JUndefined"
| "reify n h HNull = Some JNull"
| "reify n h (HBool b) = Some (JBool b)"
| "reify n h (HNum k) = Some (JNum k)"
| "reify n h HNaN = Some JNaN"
| "reify n h (HStr s) = Some (JStr s)"
| "reify 0 h (Ref a) = None"
| "reify (Suc n) h (Ref a) =
     (if a < length h
      then (case h ! a of
              HArr vs \<Rightarrow> map_option JArr (those (map (reify n h) vs))
            | HObj kvs \<Rightarrow>
                map_option JObj (those (map (\<lambda>(k, v). map_option (Pair k) (reify n h v)) kvs)))
      else None)"

text \<open>An object's properties with the value of \<^verbatim>\<open>Records\<close> replaced.\<close>

definition replace_Records :: "hvalue \<Rightarrow> (string \<times> hvalue) list \<Rightarrow> (string \<times> hvalue) list" where
  "replace_Records x props = map (\<lambda>(k, v). if k = ''Records'' then (k, x) else (k, v)) props"

section \<open>Vocabulary of the properties\<close>

text \<open>A parser class declines or faults on an event when its attempt yields no result: the
  constructor throws, \<^verbatim>\<open>parse\<close> throws, or \<^verbatim>\<open>parse\<close> returns a falsy value.\<close>

definition declines_or_faults :: "parser_class \<Rightarrow> jsvalue \<Rightarrow> bool" where
  "declines_or_faults P event =
     (case construct P of
        Some e \<Rightarrow> True
      | None \<Rightarrow> (case parse P event of Inl e \<Rightarrow> True | Inr message \<Rightarrow> \<not> truthy message))"

text \<open>The error of a faulting attempt, and an attempt that declines without a fault.\<close>

definition fault :: "parser_class \<Rightarrow> jsvalue \<Rightarrow> jserror option" where
  "fault P event =
     (case construct P of
        Some e \<Rightarrow> Some e
      | None \<Rightarrow> (case parse P event of Inl e \<Rightarrow> Some e | Inr message \<Rightarrow> None))"

definition declines :: "parser_class \<Rightarrow> jsvalue \<Rightarrow> bool" where
  "declines P event =
     (case construct P of
        Some e \<Rightarrow> False
      | None \<Rightarrow> (case parse P event of Inl e \<Rightarrow> False | Inr message \<Rightarrow> \<not> truthy message))"

text \<open>Projections of a run: the indices of the parser classes that were instantiated or asked
  to parse, the events \<^verbatim>\<open>processEvent\<close> was entered with, and the messages handed to
  \<^verbatim>\<open>Slack.postMessage\<close>.\<close>

fun invoked :: "action list \<Rightarrow> nat list" where
  "invoked [] = []"
| "invoked (Construct i # acts) = i # invoked acts"
| "invoked (Parse i event # acts) = i # invoked acts"
| "invoked (a # acts) = invoked acts"

fun dispatched :: "action list \<Rightarrow> jsvalue list" where
  "dispatched [] = []"
| "dispatched (ProcessEvent event # acts) = event # dispatched acts"
| "dispatched (a # acts) = dispatched acts"

fun posted :: "action list \<Rightarrow> jsvalue list" where
  "posted [] = []"
| "posted (PostMessage message # acts) = message # posted acts"
| "posted (a # acts) = posted acts"

text \<open>The values on which a property read throws (\<^verbatim>\<open>v == null\<close>).\<close>

fun nullish :: "jsvalue \<Rightarrow> bool" where
  "nullish JUndefined = True"
| "nullish JNull = True"
| "nullish v = False"

text \<open>One pass of the loop over \<^verbatim>\<open>event.Records\<close> taken alone: record \<open>r\<close> at index \<open>i\<close>,
  on a handler fresh from the constructor. And runs put one after the other, where an
  error ends the sequence.\<close>

definition record_run :: "env \<Rightarrow> jsvalue \<Rightarrow> nat \<Rightarrow> jsvalue \<Rightarrow> jserror option \<times> action list" where
  "record_run E event i r = records_loop E (new_LambdaHandler (module_parsers E)) event i [r]"

fun in_sequence :: "(jserror option \<times> action list) list \<Rightarrow> jserror option \<times> action list" where
  "in_sequence [] = (None, [])"
| "in_sequence ((Some e, acts) # rest) = (Some e, acts)"
| "in_sequence ((None, acts) # rest) =
     (case in_sequence rest of (res, later) \<Rightarrow> (res, acts @ later))"

text \<open>What the dispatch of record \<open>r\<close> alone forwards (the message, if any), and how its
  delivery ends: the error \<^verbatim>\<open>Slack.postMessage\<close> throws for that message, \<open>None\<close> when it
  succeeds or nothing is forwarded. Both are read off \<^verbatim>\<open>processEvent\<close> and
  \<^verbatim>\<open>Slack.postMessage\<close>, not off the loop.\<close>

definition forwarded :: "env \<Rightarrow> jsvalue \<Rightarrow> jsvalue \<Rightarrow> jsvalue list" where
  "forwarded E event r =
     (case fst (processEvent (new_LambdaHandler (module_parsers E)) (singleRecordEvent event r)) of
        RetParser message name \<Rightarrow> [message]
      | _ \<Rightarrow> [])"

definition delivery :: "env \<Rightarrow> jsvalue \<Rightarrow> jsvalue \<Rightarrow> jserror option" where
  "delivery E event r =
     (case fst (processEvent (new_LambdaHandler (module_parsers E)) (singleRecordEvent event r)) of
        RetParser message name \<Rightarrow> postMessage E message
      | _ \<Rightarrow> None)"

section \<open>Example collaborators\<close>

text \<open>Parser classes that ignore the event: one whose \<^verbatim>\<open>parse\<close> returns a fixed value and
  one whose \<^verbatim>\<open>parse\<close> throws. A Slack client that always succeeds and one that always
  fails. A decoder that knows two JSON texts and rejects the text used as malformed input
  in the examples.\<close>

definition returns :: "jsvalue \<Rightarrow> parser_class" where
  "returns v = \<lparr>construct = None, parse = (\<lambda>event. Inr v)\<rparr>"

definition throws :: "jserror \<Rightarrow> parser_class" where
  "throws e = \<lparr>construct = None, parse = (\<lambda>event. Inl e)\<rparr>"

definition example_message :: jsvalue where
  "example_message = JObj [(''text'', JStr ''hi'')]"

definition example_decoder :: "string \<Rightarrow> jsvalue option" where
  "example_decoder s =
     (if s = ''null'' then Some JNull else if s = ''{}'' then Some (JObj []) else None)"

definition slack_up :: "(string \<times> parser_class) list \<Rightarrow> env" where
  "slack_up table =
     \<lparr>module_parsers = table, postMessage = (\<lambda>message. None), JSON_parse = example_decoder\<rparr>"

definition slack_down :: "(string \<times> parser_class) list \<Rightarrow> env" where
  "slack_down table =
     \<lparr>module_parsers = table, postMessage = (\<lambda>message. Some (Thrown (JStr ''down''))),
      JSON_parse = example_decoder\<rparr>"

text \<open>A parser class whose \<^verbatim>\<open>parse\<close> returns the event itself, and a Slack client that
  rejects one message.\<close>

definition echo :: parser_class where
  "echo = \<lparr>construct = None, parse = (\<lambda>event. Inr event)\<rparr>"

definition slack_rejects :: "jsvalue \<Rightarrow> (string \<times> parser_class) list \<Rightarrow> env" where
  "slack_rejects bad table =
     \<lparr>module_parsers = table,
      postMessage = (\<lambda>message. if message = bad then Some (Thrown (JStr ''rejected'')) else None),
      JSON_parse = example_decoder\<rparr>"

text \<open>A store holding one event with two records.\<close>

definition example_heap :: heap where
  "example_heap =
     [HObj [(''Type'', HStr ''batch''), (''Records'', Ref 1)],
      HArr [Ref 2, Ref 3],
      HObj [(''Sns'', HStr ''a'')],
      HObj [(''Sns'', HStr ''b'')]]"

section \<open>The parser loop\<close>

lemma invoked_append: "invoked (xs @ ys) = invoked xs @ invoked ys"
  by (induction xs rule: invoked.induct) simp_all

lemma isEmpty_falsy: "\<not> truthy v \<Longrightarrow> isEmpty v"
  by (cases v) simp_all

text \<open>What \<^verbatim>\<open>_.isEmpty\<close> lets through: a nonempty string, array or object.\<close>

lemma not_isEmpty_iff:
  "\<not> isEmpty V \<longleftrightarrow>
     (\<exists>s. V = JStr s \<and> s \<noteq> []) \<or> (\<exists>xs. V = JArr xs \<and> xs \<noteq> [])
     \<or> (\<exists>kvs. V = JObj kvs \<and> kvs \<noteq> [])"
  by (cases V) simp_all

text \<open>A fresh handler, or the same handler after earlier runs, reads the table in order.\<close>

lemma processEvent_new:
  "processEvent ((new_LambdaHandler table)\<lparr>lastParser := lp\<rparr>) event =
     (case parser_loop 0 table event lp of
        (r, lp', acts) \<Rightarrow>
          (r, (new_LambdaHandler table)\<lparr>lastParser := lp'\<rparr>, ProcessEvent event # acts))"
  by (simp add: processEvent_def new_LambdaHandler_def zip_map_fst_snd)

text \<open>The loop over a table in two parts: the second part runs only when the first is
  exhausted.\<close>

lemma parser_loop_append:
  "parser_loop i (pre @ rest) event lp =
     (case parser_loop i pre event lp of
        (RetUndefined, lp1, a1) \<Rightarrow>
          (case parser_loop (i + length pre) rest event lp1 of
             (r, lp2, a2) \<Rightarrow> (r, lp2, a1 @ a2))
      | other \<Rightarrow> other)"
proof (induction pre arbitrary: i lp)
  case Nil
  show ?case by (simp split: prod.splits)
next
  case (Cons p pre)
  obtain n P where p: "p = (n, P)" by (cases p)
  show ?case
    unfolding p
    by (simp add: Cons.IH split: option.splits sum.splits prod.splits pe_return.splits)
qed

lemma parser_loop_all_decline:
  "\<forall>p \<in> set pre. declines_or_faults (snd p) event \<Longrightarrow>
   fst (parser_loop i pre event lp) = RetUndefined \<and>
   fst (snd (parser_loop i pre event lp)) = (if pre = [] then lp else Some (fst (last pre))) \<and>
   set (invoked (snd (snd (parser_loop i pre event lp)))) = {i..<i + length pre}"
proof (induction pre arbitrary: i lp)
  case Nil
  show ?case by simp
next
  case (Cons p pre)
  obtain n P where p: "p = (n, P)" by (cases p)
  from Cons.prems have rest: "\<forall>p \<in> set pre. declines_or_faults (snd p) event"
    and here: "declines_or_faults P event" by (simp_all add: p)
  note IH = Cons.IH[OF rest, of "Suc i" "Some n"]
  have range: "insert i {Suc i..<Suc (i + length pre)} = {i..<Suc (i + length pre)}"
    by auto
  from here IH show ?case
    unfolding p
    by (auto simp add: declines_or_faults_def range split: option.splits sum.splits prod.splits)
qed

lemma prefix_declines:
  assumes "k \<le> length table" and "\<forall>j<k. declines_or_faults (snd (table ! j)) event"
  shows "\<forall>p \<in> set (take k table). declines_or_faults (snd p) event"
proof
  fix p assume "p \<in> set (take k table)"
  then obtain j where "j < k" and "p = table ! j"
    using assms(1) by (auto simp add: in_set_conv_nth)
  with assms(2) show "declines_or_faults (snd p) event" by simp
qed

text \<open>Every pass through the loop body overwrites \<^verbatim>\<open>this.lastParser\<close> first.\<close>

lemma parser_loop_Cons_lp:
  "parser_loop i (p # rest) event lp = parser_loop i (p # rest) event lp'"
  by (cases p) simp

lemma parser_loop_skip:
  assumes "k < length table" and "\<forall>j<k. declines_or_faults (snd (table ! j)) event"
  shows "parser_loop i table event lp =
           (case parser_loop (i + k) (table ! k # drop (Suc k) table) event lp1 of
              (r, lp2, a2) \<Rightarrow> (r, lp2, snd (snd (parser_loop i (take k table) event lp)) @ a2))"
proof -
  have pre: "\<forall>p \<in> set (take k table). declines_or_faults (snd p) event"
    using assms by (intro prefix_declines) simp_all
  note D = parser_loop_all_decline[OF pre, of i lp]
  obtain r0 lp0 a1 where run: "parser_loop i (take k table) event lp = (r0, lp0, a1)"
    by (cases "parser_loop i (take k table) event lp") auto
  from D run have r0: "r0 = RetUndefined" by simp
  have "parser_loop i table event lp =
          parser_loop i (take k table @ (table ! k # drop (Suc k) table)) event lp"
    using assms(1) by (simp add: id_take_nth_drop[symmetric])
  also have "\<dots> = (case parser_loop (i + k) (table ! k # drop (Suc k) table) event lp0 of
                (r, lp2, a2) \<Rightarrow> (r, lp2, a1 @ a2))"
    using assms(1) by (simp only: parser_loop_append run r0) simp
  also have "parser_loop (i + k) (table ! k # drop (Suc k) table) event lp0
             = parser_loop (i + k) (table ! k # drop (Suc k) table) event lp1"
    by (rule parser_loop_Cons_lp)
  finally show ?thesis by (simp add: run)
qed

lemma invoked_skipped:
  assumes "k < length table" and "\<forall>j<k. declines_or_faults (snd (table ! j)) event"
  shows "set (invoked (snd (snd (parser_loop i (take k table) event lp)))) = {i..<i + k}"
proof -
  have pre: "\<forall>p \<in> set (take k table). declines_or_faults (snd p) event"
    using assms by (intro prefix_declines) simp_all
  from parser_loop_all_decline[OF pre, of i lp] assms(1) show ?thesis by simp
qed

text \<open>That every class before \<open>k\<close> declines or faults says no more than that the loop gets as
  far as class \<open>k\<close>: the first class to return a truthy value ends it.\<close>

lemma reached_iff:
  "k < length table \<Longrightarrow>
   Construct (i + k) \<in> set (snd (snd (parser_loop i table event lp)))
     \<longleftrightarrow> (\<forall>j<k. declines_or_faults (snd (table ! j)) event)"
proof (induction table arbitrary: i k lp)
  case Nil
  then show ?case by simp
next
  case (Cons p table)
  obtain n P where p: "p = (n, P)" by (cases p)
  obtain r lp' acts where rest: "parser_loop (Suc i) table event (Some n) = (r, lp', acts)"
    by (cases "parser_loop (Suc i) table event (Some n)") auto
  show ?case
  proof (cases k)
    case 0
    then show ?thesis
      unfolding p by (auto simp add: rest split: option.splits sum.splits)
  next
    case (Suc k')
    with Cons.prems have k': "k' < length table" by simp
    from Cons.IH[OF k', of "Suc i" "Some n"] rest
    have IH: "Construct (Suc (i + k')) \<in> set acts
                \<longleftrightarrow> (\<forall>j<k'. declines_or_faults (snd (table ! j)) event)"
      by simp
    have shift: "(\<forall>j<Suc k'. declines_or_faults (snd (((n, P) # table) ! j)) event)
                   \<longleftrightarrow> declines_or_faults P event
                       \<and> (\<forall>j<k'. declines_or_faults (snd (table ! j)) event)"
      by (auto simp add: less_Suc_eq_0_disj)
    show ?thesis
      unfolding p Suc shift
      using IH
      by (auto simp add: rest declines_or_faults_def split: option.splits sum.splits)
  qed
qed

section \<open>Properties of processEvent\<close>

text \<open>
  C1 as the code has it (first-match forwarding). Let parser class \<open>k\<close> of the table be the
  first to return a result that is forwarded: every class before it declines or faults on
  the event (the loop reaches \<open>k\<close>, see \<open>reached_iff\<close>), and \<open>k\<close> itself is constructed
  and its \<^verbatim>\<open>parse\<close> returns a value \<open>V\<close> that is not \<^verbatim>\<open>true\<close> and is not empty for
  \<^verbatim>\<open>_.isEmpty\<close>, the test the code applies: a nonempty string, array or object (see
  \<open>not_isEmpty_iff\<close>). Then \<^verbatim>\<open>processEvent\<close>, on a fresh handler or on one that has run
  before, returns the parser carrying exactly \<open>V\<close> as \<^verbatim>\<open>slackMessage\<close> and the name of
  class \<open>k\<close> as \<^verbatim>\<open>name\<close>, and the classes invoked are exactly those of index 0 to \<open>k\<close>:
  none of \<open>k + 1\<close> to the end is constructed or asked to parse.
\<close>

theorem first_match_forwarded:
  assumes "k < length table"
    and "\<forall>j<k. declines_or_faults (snd (table ! j)) event"
    and "construct (snd (table ! k)) = None"
    and "parse (snd (table ! k)) event = Inr V"
    and "\<not> isEmpty V" and "V \<noteq> JBool True"
  shows "fst (processEvent ((new_LambdaHandler table)\<lparr>lastParser := lp\<rparr>) event)
           = RetParser V (fst (table ! k))
       \<and> lastParser (fst (snd (processEvent ((new_LambdaHandler table)\<lparr>lastParser := lp\<rparr>) event)))
           = Some (fst (table ! k))
       \<and> set (invoked (snd (snd (processEvent ((new_LambdaHandler table)\<lparr>lastParser := lp\<rparr>) event))))
           = {..k}"
proof -
  obtain n P where nP: "table ! k = (n, P)" by (cases "table ! k")
  from assms(5) have tr: "truthy V" using isEmpty_falsy by blast
  have here: "parser_loop k ((n, P) # drop (Suc k) table) event None
                = (RetParser V n, Some n, [Construct k, Parse k event])"
    using assms(3-6) tr by (simp add: nP)
  have whole: "parser_loop 0 table event lp =
                 (RetParser V n, Some n,
                  snd (snd (parser_loop 0 (take k table) event lp)) @ [Construct k, Parse k event])"
    using parser_loop_skip[OF assms(1,2), of 0 lp None]
    by (simp add: nP here del: parser_loop.simps)
  have "insert k {0..<k} = {..k}" by auto
  then show ?thesis
    using invoked_skipped[OF assms(1,2), of 0 lp]
    by (simp add: processEvent_new whole nP invoked_append)
qed

theorem first_match_forwarded_witness:
  "declines_or_faults (returns JUndefined) (JObj [(''source'', JStr ''aws.rds'')])
   \<and> processEvent
       (new_LambdaHandler [(''codebuild'', returns JUndefined), (''generic'', returns example_message)])
       (JObj [(''source'', JStr ''aws.rds'')])
     = (RetParser example_message ''generic'',
        \<lparr>parsers = [returns JUndefined, returns example_message],
         parserNames = [''codebuild'', ''generic''], lastParser = Some ''generic''\<rparr>,
        [ProcessEvent (JObj [(''source'', JStr ''aws.rds'')]),
         Construct 0, Parse 0 (JObj [(''source'', JStr ''aws.rds'')]),
         Construct 1, Parse 1 (JObj [(''source'', JStr ''aws.rds'')])])"
  using first_match_forwarded
    [of 1 "[(''codebuild'', returns JUndefined), (''generic'', returns example_message)]"
        "JObj [(''source'', JStr ''aws.rds'')]" example_message None]
  by (simp add: declines_or_faults_def returns_def example_message_def processEvent_def
      new_LambdaHandler_def)

text \<open>
  C1 as stated fails: the number 42 is truthy, is not \<^verbatim>\<open>true\<close> and is not an empty object
  or array, yet \<^verbatim>\<open>_.isEmpty(42)\<close> holds, so a parser returning it is taken to suppress
  the event: \<^verbatim>\<open>processEvent\<close> returns \<^verbatim>\<open>null\<close> and nothing is forwarded.
\<close>

theorem truthy_number_is_suppressed:
  "parse (returns (JNum 42)) (JObj [(''source'', JStr ''aws.rds'')]) = Inr (JNum 42)
   \<and> truthy (JNum 42) \<and> JNum 42 \<noteq> JBool True \<and> JNum 42 \<noteq> JObj [] \<and> JNum 42 \<noteq> JArr []
   \<and> processEvent (new_LambdaHandler [(''generic'', returns (JNum 42))])
        (JObj [(''source'', JStr ''aws.rds'')])
      = (RetNull,
         \<lparr>parsers = [returns (JNum 42)], parserNames = [''generic''],
          lastParser = Some ''generic''\<rparr>,
         [ProcessEvent (JObj [(''source'', JStr ''aws.rds'')]),
          Construct 0, Parse 0 (JObj [(''source'', JStr ''aws.rds'')])])"
  by (simp add: returns_def processEvent_def new_LambdaHandler_def)

text \<open>
  C3 (classifier fault recovery). Let the loop reach parser class \<open>k\<close> (every class before
  it declines or faults, see \<open>reached_iff\<close>) and let the construction of \<open>k\<close> or its
  \<^verbatim>\<open>parse\<close> throw \<open>e\<close>.
  Then the run consists of the attempts before \<open>k\<close>, the attempt at \<open>k\<close>, the diagnostic
  naming \<open>k\<close> and carrying \<open>e\<close>, and then the rest of the loop from class \<open>k + 1\<close> on, whose
  outcome is the outcome of the run. With class \<open>k\<close> replaced by any class \<open>D\<close> that
  declines on the event, the run is the same but for the diagnostic (and for the call of
  \<^verbatim>\<open>parse\<close> that a throwing constructor prevents): the same return value, the same
  \<^verbatim>\<open>lastParser\<close>, the same actions before and after.
\<close>

theorem fault_is_decline:
  assumes "k < length table"
    and "\<forall>j<k. declines_or_faults (snd (table ! j)) event"
    and "fault (snd (table ! k)) event = Some e"
    and "declines D event"
  shows "processEvent ((new_LambdaHandler table)\<lparr>lastParser := lp\<rparr>) event =
           (fst (parser_loop (Suc k) (drop (Suc k) table) event (Some (fst (table ! k)))),
            (new_LambdaHandler table)
              \<lparr>lastParser :=
                 fst (snd (parser_loop (Suc k) (drop (Suc k) table) event (Some (fst (table ! k)))))\<rparr>,
            ProcessEvent event # snd (snd (parser_loop 0 (take k table) event lp))
            @ Construct k # (if construct (snd (table ! k)) = None then [Parse k event] else [])
            @ [ConsoleError (''Error parsing event [parser:'' @ fst (table ! k) @ '']:'') [Err e]]
            @ snd (snd (parser_loop (Suc k) (drop (Suc k) table) event (Some (fst (table ! k))))))
       \<and> processEvent ((new_LambdaHandler (table[k := (fst (table ! k), D)]))\<lparr>lastParser := lp\<rparr>) event =
           (fst (parser_loop (Suc k) (drop (Suc k) table) event (Some (fst (table ! k)))),
            (new_LambdaHandler (table[k := (fst (table ! k), D)]))
              \<lparr>lastParser :=
                 fst (snd (parser_loop (Suc k) (drop (Suc k) table) event (Some (fst (table ! k)))))\<rparr>,
            ProcessEvent event # snd (snd (parser_loop 0 (take k table) event lp))
            @ [Construct k, Parse k event]
            @ snd (snd (parser_loop (Suc k) (drop (Suc k) table) event (Some (fst (table ! k))))))"
proof -
  obtain n P where nP: "table ! k = (n, P)" by (cases "table ! k")
  obtain r2 lp2 post where cont:
    "parser_loop (Suc k) (drop (Suc k) table) event (Some n) = (r2, lp2, post)"
    by (cases "parser_loop (Suc k) (drop (Suc k) table) event (Some n)") auto
  let ?table' = "table[k := (n, D)]"
  have k': "k < length ?table'" using assms(1) by simp
  have pre': "\<forall>j<k. declines_or_faults (snd (?table' ! j)) event"
    using assms(2) by simp
  have here: "parser_loop k ((n, P) # drop (Suc k) table) event None =
                (r2, lp2, Construct k # (if construct P = None then [Parse k event] else [])
                   @ [ConsoleError (''Error parsing event [parser:'' @ n @ '']:'') [Err e]] @ post)"
    using assms(3) by (simp add: nP fault_def cont split: option.splits sum.splits)
  have here': "parser_loop k ((n, D) # drop (Suc k) table) event None =
                (r2, lp2, [Construct k, Parse k event] @ post)"
  proof -
    from assms(4) obtain d where "construct D = None" "parse D event = Inr d" "\<not> truthy d"
      by (auto simp add: declines_def split: option.splits sum.splits)
    then show ?thesis by (simp add: cont)
  qed
  have one: "parser_loop 0 table event lp =
      (r2, lp2, snd (snd (parser_loop 0 (take k table) event lp))
         @ Construct k # (if construct P = None then [Parse k event] else [])
         @ [ConsoleError (''Error parsing event [parser:'' @ n @ '']:'') [Err e]] @ post)"
    using parser_loop_skip[OF assms(1,2), of 0 lp None]
    by (simp add: nP here del: parser_loop.simps)
  have two: "parser_loop 0 ?table' event lp =
      (r2, lp2, snd (snd (parser_loop 0 (take k table) event lp)) @ [Construct k, Parse k event] @ post)"
    using parser_loop_skip[OF k' pre', of 0 lp None] assms(1)
    by (simp add: here' drop_update_cancel take_update_cancel del: parser_loop.simps)
  show ?thesis
    by (simp add: processEvent_new one two nP cont)
qed

theorem fault_is_decline_witness:
  "fault (throws (Thrown (JStr ''boom''))) (JObj []) = Some (Thrown (JStr ''boom''))
   \<and> declines (returns JUndefined) (JObj [])
   \<and> processEvent
       (new_LambdaHandler
          [(''ses-received'', throws (Thrown (JStr ''boom''))), (''generic'', returns example_message)])
       (JObj [])
     = (RetParser example_message ''generic'',
        \<lparr>parsers = [throws (Thrown (JStr ''boom'')), returns example_message],
         parserNames = [''ses-received'', ''generic''], lastParser = Some ''generic''\<rparr>,
        [ProcessEvent (JObj []), Construct 0, Parse 0 (JObj []),
         ConsoleError ''Error parsing event [parser:ses-received]:'' [Err (Thrown (JStr ''boom''))],
         Construct 1, Parse 1 (JObj [])])
   \<and> processEvent
       (new_LambdaHandler
          [(''ses-received'', returns JUndefined), (''generic'', returns example_message)])
       (JObj [])
     = (RetParser example_message ''generic'',
        \<lparr>parsers = [returns JUndefined, returns example_message],
         parserNames = [''ses-received'', ''generic''], lastParser = Some ''generic''\<rparr>,
        [ProcessEvent (JObj []), Construct 0, Parse 0 (JObj []),
         Construct 1, Parse 1 (JObj [])])"
  using fault_is_decline
    [of 0 "[(''ses-received'', throws (Thrown (JStr ''boom''))), (''generic'', returns example_message)]"
        "JObj []" "Thrown (JStr ''boom'')" "returns JUndefined" None]
  by (simp add: fault_def declines_def throws_def returns_def example_message_def
      processEvent_def new_LambdaHandler_def)

text \<open>
  C8 (determinism of dispatch). The parser classes of the model are deterministic and
  without side effects; the one piece of state a run leaves behind is
  \<^verbatim>\<open>this.lastParser\<close>. Running \<^verbatim>\<open>processEvent\<close> again on the same event, on the handler
  as the first run left it, gives the same return value (the same message and parser name,
  \<^verbatim>\<open>null\<close>, or \<^verbatim>\<open>undefined\<close>), the same \<^verbatim>\<open>lastParser\<close> and the same actions.
\<close>

theorem processEvent_twice:
  "processEvent (fst (snd (processEvent h event))) event = processEvent h event"
proof -
  define T where "T = zip (parserNames h) (parsers h)"
  obtain r lp' acts where run: "parser_loop 0 T event (lastParser h) = (r, lp', acts)"
    by (cases "parser_loop 0 T event (lastParser h)") auto
  have first: "processEvent h event = (r, h\<lparr>lastParser := lp'\<rparr>, ProcessEvent event # acts)"
    by (simp add: processEvent_def T_def[symmetric] run)
  have again: "parser_loop 0 T event lp' = (r, lp', acts)"
  proof (cases T)
    case Nil
    with run show ?thesis by simp
  next
    case (Cons p rest)
    with run parser_loop_Cons_lp[of 0 p rest event lp' "lastParser h"] show ?thesis by simp
  qed
  have second: "processEvent (h\<lparr>lastParser := lp'\<rparr>) event
                  = (r, h\<lparr>lastParser := lp'\<rparr>, ProcessEvent event # acts)"
    by (simp add: processEvent_def T_def[symmetric] again)
  show ?thesis by (simp add: first second)
qed

section \<open>The handler\<close>

lemma posted_append: "posted (xs @ ys) = posted xs @ posted ys"
  by (induction xs rule: posted.induct) simp_all

lemma dispatched_append: "dispatched (xs @ ys) = dispatched xs @ dispatched ys"
  by (induction xs rule: dispatched.induct) simp_all

lemma parser_loop_quiet:
  "posted (snd (snd (parser_loop i table event lp))) = [] \<and>
   dispatched (snd (snd (parser_loop i table event lp))) = []"
proof (induction table arbitrary: i lp)
  case Nil
  show ?case by simp
next
  case (Cons p table)
  obtain n P where p: "p = (n, P)" by (cases p)
  obtain r lp' acts where rest: "parser_loop (Suc i) table event (Some n) = (r, lp', acts)"
    by (cases "parser_loop (Suc i) table event (Some n)") auto
  from Cons.IH[of "Suc i" "Some n"] rest
  have "posted acts = []" and "dispatched acts = []" by simp_all
  then show ?case
    unfolding p by (simp add: rest split: option.splits sum.splits)
qed

lemma processEvent_quiet:
  "posted (snd (snd (processEvent h event))) = [] \<and>
   dispatched (snd (snd (processEvent h event))) = [event]"
proof -
  obtain r lp' acts where run:
    "parser_loop 0 (zip (parserNames h) (parsers h)) event (lastParser h) = (r, lp', acts)"
    by (cases "parser_loop 0 (zip (parserNames h) (parsers h)) event (lastParser h)") auto
  from parser_loop_quiet[of 0 "zip (parserNames h) (parsers h)" event "lastParser h"] run
  show ?thesis by (simp add: processEvent_def)
qed

lemma single_event_runs:
  "dispatched (snd (single_event E h event)) = [event] \<and>
   (fst (single_event E h event) = Some e \<longleftrightarrow>
      (\<exists>m. m \<in> set (posted (snd (single_event E h event))) \<and> postMessage E m = Some e))"
proof -
  obtain r h' acts where run: "processEvent h event = (r, h', acts)"
    by (cases "processEvent h event") auto
  from processEvent_quiet[of h event] run
  have q: "posted acts = []" "dispatched acts = [event]" by simp_all
  show ?thesis
    by (cases r) (simp_all add: single_event_def run q posted_append dispatched_append)
qed

lemma records_loop_failure:
  "fst (records_loop E h event i rs) = Some e \<longleftrightarrow>
     (\<exists>m. m \<in> set (posted (snd (records_loop E h event i rs))) \<and> postMessage E m = Some e)"
proof (induction rs arbitrary: h i)
  case Nil
  show ?case by simp
next
  case (Cons r rs)
  obtain p h' acts where run: "processEvent h (singleRecordEvent event r) = (p, h', acts)"
    by (cases "processEvent h (singleRecordEvent event r)") auto
  from processEvent_quiet[of h "singleRecordEvent event r"] run
  have q: "posted acts = []" by simp
  obtain res later where rest: "records_loop E h' event (Suc i) rs = (res, later)"
    by (cases "records_loop E h' event (Suc i) rs") auto
  from Cons.IH[of h' "Suc i"] rest
  have IH: "res = Some e \<longleftrightarrow> (\<exists>m. m \<in> set (posted later) \<and> postMessage E m = Some e)"
    by simp
  show ?case
  proof (cases p)
    case (RetParser message name)
    show ?thesis
    proof (cases "postMessage E message")
      case None
      then show ?thesis
        using IH by (auto simp add: run RetParser rest q posted_append)
    next
      case (Some e')
      then show ?thesis
        by (auto simp add: run RetParser q posted_append)
    qed
  next
    case RetNull
    then show ?thesis using IH by (simp add: run rest q posted_append split: option.splits)
  next
    case RetUndefined
    then show ?thesis using IH by (simp add: run rest q posted_append split: option.splits)
  qed
qed

lemma try_body_failure:
  "fst (try_body E event) = Some e \<longleftrightarrow>
     (nullish event \<and> e = TypeError) \<or>
     (\<exists>m. m \<in> set (posted (snd (try_body E event))) \<and> postMessage E m = Some e)"
proof (cases "get_Records event")
  case (Inl e')
  then have "nullish event" and "e' = TypeError" by (cases event; simp)+
  with Inl show ?thesis by (auto simp add: try_body_def)
next
  case (Inr v)
  then have nn: "\<not> nullish event" by (cases event) simp_all
  show ?thesis
    using nn single_event_runs[of E "new_LambdaHandler (module_parsers E)" event e]
      records_loop_failure[of E "new_LambdaHandler (module_parsers E)" event 0 _ e]
    by (simp add: try_body_def Let_def Inr split: jsvalue.splits)
qed

lemma try_body_nullish:
  "nullish event \<Longrightarrow> try_body E event = (Some TypeError, [])"
  by (cases event) (simp_all add: try_body_def)

lemma posted_handler:
  "posted (snd (handler E raw)) = posted (snd (try_body E (fst (decode_event E raw))))"
  by (auto simp add: handler_def report_def decode_event_def posted_append
      split: prod.splits option.splits jsvalue.splits)

lemma fst_handler:
  "fst (handler E raw) = Failure e \<longleftrightarrow> fst (try_body E (fst (decode_event E raw))) = Some e"
  by (auto simp add: handler_def report_def split: prod.splits option.splits)

lemma handler_failure:
  "fst (handler E raw) = Failure e \<longleftrightarrow>
     (nullish (fst (decode_event E raw)) \<and> e = TypeError) \<or>
     (\<exists>m. m \<in> set (posted (snd (handler E raw))) \<and> postMessage E m = Some e)"
  by (simp only: fst_handler posted_handler try_body_failure)

lemma decode_event_string:
  "decode_event E (JStr s) =
     (case JSON_parse E s of
        Some v \<Rightarrow> (v, [])
      | None \<Rightarrow> (JStr s, [ConsoleError (''Error parsing event JSON (continuing...): '' @ s) []]))"
  by (simp add: decode_event_def)

lemma decode_event_other: "\<not> isString raw \<Longrightarrow> decode_event E raw = (raw, [])"
  by (cases raw) (simp_all add: decode_event_def)

lemma try_body_string:
  "try_body E (JStr s) = single_event E (new_LambdaHandler (module_parsers E)) (JStr s)"
  by (simp add: try_body_def)

text \<open>
  C6 (ingestion normalization). For a string payload the handler calls \<^verbatim>\<open>JSON.parse\<close>.
  When the text \<open>s\<close> decodes to \<open>v\<close>, the \<^verbatim>\<open>try\<close> block runs on \<open>v\<close>. When the text \<open>t\<close>
  does not decode, the malformed-input diagnostic is logged right after the incoming
  message and the \<^verbatim>\<open>try\<close> block runs on the string itself: \<^verbatim>\<open>processEvent\<close> is entered
  once, with the unchanged text, and the invocation fails only if a delivery to Slack
  fails. A payload that is not a string reaches the \<^verbatim>\<open>try\<close> block unchanged.
\<close>

theorem ingestion_normalization:
  "(JSON_parse E s = Some v \<longrightarrow>
      handler E (JStr s) =
        (fst (report (try_body E v)),
         ConsoleLog ''Incoming Message:'' [Json (JStr s)] # snd (report (try_body E v))))
   \<and> (JSON_parse E t = None \<longrightarrow>
      handler E (JStr t) =
        (fst (report (try_body E (JStr t))),
         ConsoleLog ''Incoming Message:'' [Json (JStr t)]
         # ConsoleError (''Error parsing event JSON (continuing...): '' @ t) []
         # snd (report (try_body E (JStr t))))
      \<and> dispatched (snd (handler E (JStr t))) = [JStr t]
      \<and> (\<forall>e. fst (handler E (JStr t)) = Failure e \<longrightarrow>
            (\<exists>m. m \<in> set (posted (snd (handler E (JStr t)))) \<and> postMessage E m = Some e)))
   \<and> (\<not> isString raw \<longrightarrow>
      handler E raw =
        (fst (report (try_body E raw)),
         ConsoleLog ''Incoming Message:'' [Json raw] # snd (report (try_body E raw))))"
proof (intro conjI impI allI)
  assume "JSON_parse E s = Some v"
  then show "handler E (JStr s) =
        (fst (report (try_body E v)),
         ConsoleLog ''Incoming Message:'' [Json (JStr s)] # snd (report (try_body E v)))"
    by (simp add: handler_def decode_event_string split: prod.splits)
next
  assume bad: "JSON_parse E t = None"
  then show shape: "handler E (JStr t) =
        (fst (report (try_body E (JStr t))),
         ConsoleLog ''Incoming Message:'' [Json (JStr t)]
         # ConsoleError (''Error parsing event JSON (continuing...): '' @ t) []
         # snd (report (try_body E (JStr t))))"
    by (simp add: handler_def decode_event_string split: prod.splits)
  have "dispatched (snd (report (try_body E (JStr t)))) = [JStr t]"
    using single_event_runs[of E "new_LambdaHandler (module_parsers E)" "JStr t"]
    by (cases "single_event E (new_LambdaHandler (module_parsers E)) (JStr t)")
       (auto simp add: try_body_string report_def dispatched_append split: option.splits)
  then show "dispatched (snd (handler E (JStr t))) = [JStr t]"
    by (simp add: shape)
next
  fix e
  assume bad: "JSON_parse E t = None" and "fst (handler E (JStr t)) = Failure e"
  moreover from bad have "\<not> nullish (fst (decode_event E (JStr t)))"
    by (simp add: decode_event_string)
  ultimately show "\<exists>m. m \<in> set (posted (snd (handler E (JStr t)))) \<and> postMessage E m = Some e"
    using handler_failure[of E "JStr t" e] by simp
next
  assume "\<not> isString raw"
  then show "handler E raw =
        (fst (report (try_body E raw)),
         ConsoleLog ''Incoming Message:'' [Json raw] # snd (report (try_body E raw)))"
    by (simp add: handler_def decode_event_other split: prod.splits)
qed

theorem ingestion_normalization_witness:
  "JSON_parse (slack_up [(''generic'', returns example_message)]) ''{}'' = Some (JObj [])
   \<and> handler (slack_up [(''generic'', returns example_message)]) (JStr ''{}'') =
       (Success,
        [ConsoleLog ''Incoming Message:'' [Json (JStr ''{}'')],
         ProcessEvent (JObj []), Construct 0, Parse 0 (JObj []),
         ConsoleLog ''Sending Slack message from Parser[generic]:'' [Json example_message],
         PostMessage example_message])
   \<and> JSON_parse (slack_up [(''generic'', returns example_message)]) ''not json'' = None
   \<and> handler (slack_up [(''generic'', returns example_message)]) (JStr ''not json'') =
       (Success,
        [ConsoleLog ''Incoming Message:'' [Json (JStr ''not json'')],
         ConsoleError ''Error parsing event JSON (continuing...): not json'' [],
         ProcessEvent (JStr ''not json''), Construct 0, Parse 0 (JStr ''not json''),
         ConsoleLog ''Sending Slack message from Parser[generic]:'' [Json example_message],
         PostMessage example_message])
   \<and> \<not> isString (JObj [(''source'', JStr ''aws.rds'')])
   \<and> handler (slack_up [(''generic'', returns example_message)]) (JObj [(''source'', JStr ''aws.rds'')]) =
       (Success,
        [ConsoleLog ''Incoming Message:'' [Json (JObj [(''source'', JStr ''aws.rds'')])],
         ProcessEvent (JObj [(''source'', JStr ''aws.rds'')]),
         Construct 0, Parse 0 (JObj [(''source'', JStr ''aws.rds'')]),
         ConsoleLog ''Sending Slack message from Parser[generic]:'' [Json example_message],
         PostMessage example_message])"
  using ingestion_normalization
    [of "slack_up [(''generic'', returns example_message)]" "''{}''" "JObj []" "''not json''"
        "JObj [(''source'', JStr ''aws.rds'')]"]
  by (simp add: slack_up_def example_decoder_def returns_def report_def try_body_def
      single_event_def processEvent_def new_LambdaHandler_def example_message_def)

text \<open>
  C9 (null and undefined events abort the invocation). When the event reaching the
  \<^verbatim>\<open>try\<close> block is null or undefined (the payload itself, or the text \<^verbatim>\<open>null\<close>, which
  decodes to null), reading \<^verbatim>\<open>event.Records\<close> throws: the callback receives the
  TypeError, and the run holds nothing but the two log lines, so \<^verbatim>\<open>processEvent\<close> was
  never entered and nothing was handed to Slack.
\<close>

theorem null_event_fails:
  assumes "nullish (fst (decode_event E raw))"
  shows "handler E raw =
           (Failure TypeError,
            [ConsoleLog ''Incoming Message:'' [Json raw], ConsoleLog ''ERROR:'' [Err TypeError]])"
proof -
  obtain event' decoding where d: "decode_event E raw = (event', decoding)"
    by (cases "decode_event E raw") auto
  with assms have n: "nullish event'" by simp
  have "decoding = []"
    using d n by (auto simp add: decode_event_def split: jsvalue.splits option.splits)
  then show ?thesis
    by (simp add: handler_def d try_body_nullish[OF n] report_def)
qed

theorem null_event_fails_witness:
  "nullish (fst (decode_event (slack_up [(''generic'', returns example_message)]) (JStr ''null'')))
   \<and> handler (slack_up [(''generic'', returns example_message)]) (JStr ''null'') =
       (Failure TypeError,
        [ConsoleLog ''Incoming Message:'' [Json (JStr ''null'')],
         ConsoleLog ''ERROR:'' [Err TypeError]])
   \<and> posted (snd (handler (slack_up [(''generic'', returns example_message)]) (JStr ''null''))) = []"
  using null_event_fails [of "slack_up [(''generic'', returns example_message)]" "JStr ''null''"]
  by (simp add: decode_event_def slack_up_def example_decoder_def)

text \<open>
  C7 as the code has it (failure, sink faults and null events). The callback receives an
  error \<open>e\<close> exactly when the event reaching the \<^verbatim>\<open>try\<close> block is null or undefined and
  \<open>e\<close> is the TypeError of reading its \<^verbatim>\<open>Records\<close>, or a message was handed to
  \<^verbatim>\<open>Slack.postMessage\<close> and that call threw \<open>e\<close>. Nothing else fails the invocation: not
  a text that does not decode, not a faulting parser, not suppression, not exhaustion.
\<close>

theorem failure_iff_sink_fault_or_null_event:
  "fst (handler E raw) = Failure e \<longleftrightarrow>
     (nullish (fst (decode_event E raw)) \<and> e = TypeError) \<or>
     (\<exists>m. m \<in> set (posted (snd (handler E raw))) \<and> postMessage E m = Some e)"
proof -
  let ?event = "fst (decode_event E raw)"
  have "fst (handler E raw) = Failure e \<longleftrightarrow> fst (try_body E ?event) = Some e"
    by (rule fst_handler)
  also have "\<dots> \<longleftrightarrow>
      (nullish ?event \<and> e = TypeError) \<or>
      (\<exists>m. m \<in> set (posted (snd (try_body E ?event))) \<and> postMessage E m = Some e)"
    by (rule try_body_failure)
  also have "posted (snd (try_body E ?event)) = posted (snd (handler E raw))"
    by (simp only: posted_handler)
  finally show ?thesis .
qed

text \<open>
  C7 as stated fails: the text \<^verbatim>\<open>null\<close> decodes to null, the invocation fails with the
  TypeError, and no message was handed to Slack, so no delivery failed.
\<close>

theorem failure_without_sink_fault:
  "fst (handler (slack_up [(''generic'', returns example_message)]) (JStr ''null''))
     = Failure TypeError
   \<and> posted (snd (handler (slack_up [(''generic'', returns example_message)]) (JStr ''null''))) = []"
  by (simp add: handler_def decode_event_def slack_up_def example_decoder_def try_body_def
      report_def)

section \<open>The fan-out over Records\<close>

lemma update_fresh_key: "k \<notin> fst ` set al \<Longrightarrow> AList.update k v al = al @ [(k, v)]"
  by (induction al) auto

lemma copy_properties:
  "distinct (map fst (target @ props)) \<Longrightarrow>
   foldl (\<lambda>t' (k, v). AList.update k v t') target props = target @ props"
proof (induction props arbitrary: target)
  case Nil
  show ?case by simp
next
  case (Cons kv props)
  obtain k v where kv: "kv = (k, v)" by (cases kv)
  from Cons.prems have fresh: "k \<notin> fst ` set target" by (auto simp add: kv)
  from Cons.prems have "distinct (map fst ((target @ [(k, v)]) @ props))" by (simp add: kv)
  from Cons.IH[OF this] show ?case by (simp add: kv update_fresh_key[OF fresh])
qed

lemma update_present_key:
  "distinct (map fst al) \<Longrightarrow>
   AList.update k v al =
     (if k \<in> fst ` set al then map (\<lambda>(k', v'). if k' = k then (k', v) else (k', v')) al
      else al @ [(k, v)])"
proof (induction al)
  case Nil
  show ?case by simp
next
  case (Cons a al)
  obtain k' v' where a: "a = (k', v')" by (cases a)
  from Cons.prems have d: "distinct (map fst al)" and nk: "k' \<notin> fst ` set al" by (auto simp: a)
  have same: "map (\<lambda>(k'', v''). if k'' = k' then (k'', v) else (k'', v'')) al = al"
    using nk by (induction al) auto
  show ?case
    using Cons.IH[OF d] nk by (auto simp add: a same)
qed

lemma singleRecordEvent_fields:
  assumes "distinct (map fst props)" and "map_of props ''Records'' = Some x"
  shows "singleRecordEvent (JObj props) r =
           JObj (map (\<lambda>(k, v). if k = ''Records'' then (k, JArr [r]) else (k, v)) props)"
proof -
  from assms(2) have "''Records'' \<in> fst ` set props"
    by (metis domI dom_map_of_conv_image_fst)
  then show ?thesis
    using copy_properties[of "[]" props] update_present_key[OF assms(1), of "''Records''" "JArr [r]"]
      assms(1)
    by (simp add: singleRecordEvent_def assign_def)
qed

text \<open>processEvent on a handler built from the table depends on its lastParser only when the
  table is empty.\<close>

lemma processEvent_fresh:
  assumes "table = [] \<longrightarrow> lp = None"
  shows "\<exists>lp'. (table = [] \<longrightarrow> lp' = None) \<and>
           processEvent ((new_LambdaHandler table)\<lparr>lastParser := lp\<rparr>) event =
             (fst (processEvent (new_LambdaHandler table) event),
              (new_LambdaHandler table)\<lparr>lastParser := lp'\<rparr>,
              snd (snd (processEvent (new_LambdaHandler table) event)))
           \<and> fst (snd (processEvent (new_LambdaHandler table) event)) =
               (new_LambdaHandler table)\<lparr>lastParser := lp'\<rparr>"
proof -
  have fresh: "new_LambdaHandler table = (new_LambdaHandler table)\<lparr>lastParser := None\<rparr>"
    by (simp add: new_LambdaHandler_def)
  have same: "parser_loop 0 table event lp = parser_loop 0 table event None"
  proof (cases table)
    case Nil
    with assms show ?thesis by simp
  next
    case (Cons p rest)
    then show ?thesis using parser_loop_Cons_lp[of 0 p rest event lp None] by simp
  qed
  obtain r lp' acts where run: "parser_loop 0 table event None = (r, lp', acts)"
    by (cases "parser_loop 0 table event None") auto
  have stays: "table = [] \<longrightarrow> lp' = None" using run by auto
  have a: "processEvent ((new_LambdaHandler table)\<lparr>lastParser := lp\<rparr>) event =
             (r, (new_LambdaHandler table)\<lparr>lastParser := lp'\<rparr>, ProcessEvent event # acts)"
    by (simp add: processEvent_new same run)
  have b: "processEvent (new_LambdaHandler table) event =
             (r, (new_LambdaHandler table)\<lparr>lastParser := lp'\<rparr>, ProcessEvent event # acts)"
    using processEvent_new[where table=table and lp=None and event=event] fresh run by simp
  show ?thesis using stays a b by auto
qed

lemma records_loop_in_sequence:
  assumes "module_parsers E = [] \<longrightarrow> lp = None"
  shows "records_loop E ((new_LambdaHandler (module_parsers E))\<lparr>lastParser := lp\<rparr>) event i rs =
           in_sequence (map (\<lambda>(j, r). record_run E event j r) (enumerate i rs))"
  using assms
proof (induction rs arbitrary: i lp)
  case Nil
  show ?case by simp
next
  case (Cons r rs)
  let ?T = "module_parsers E"
  let ?ev = "singleRecordEvent event r"
  from processEvent_fresh[OF Cons.prems, of ?ev]
  obtain lp' where inv: "?T = [] \<longrightarrow> lp' = None"
    and run: "processEvent ((new_LambdaHandler ?T)\<lparr>lastParser := lp\<rparr>) ?ev =
             (fst (processEvent (new_LambdaHandler ?T) ?ev),
              (new_LambdaHandler ?T)\<lparr>lastParser := lp'\<rparr>,
              snd (snd (processEvent (new_LambdaHandler ?T) ?ev)))"
    and fresh: "fst (snd (processEvent (new_LambdaHandler ?T) ?ev)) =
               (new_LambdaHandler ?T)\<lparr>lastParser := lp'\<rparr>"
    by blast
  obtain p acts where pe: "processEvent (new_LambdaHandler ?T) ?ev =
      (p, (new_LambdaHandler ?T)\<lparr>lastParser := lp'\<rparr>, acts)"
    using fresh by (cases "processEvent (new_LambdaHandler ?T) ?ev") auto
  note IH = Cons.IH[OF inv, of "Suc i"]
  obtain res later where rest:
    "in_sequence (map (\<lambda>(j, r). record_run E event j r) (enumerate (Suc i) rs)) = (res, later)"
    by (cases "in_sequence (map (\<lambda>(j, r). record_run E event j r) (enumerate (Suc i) rs))") auto
  show ?case
  proof (cases p)
    case (RetParser message name)
    then show ?thesis
      by (cases "postMessage E message")
         (simp_all add: run pe IH rest record_run_def)
  next
    case RetNull
    then show ?thesis by (simp add: run pe IH rest record_run_def)
  next
    case RetUndefined
    then show ?thesis by (simp add: run pe IH rest record_run_def)
  qed
qed

lemma record_run_dispatched:
  "dispatched (snd (record_run E event i r)) = [singleRecordEvent event r]"
proof -
  let ?h = "new_LambdaHandler (module_parsers E)"
  obtain p h' acts where pe: "processEvent ?h (singleRecordEvent event r) = (p, h', acts)"
    by (cases "processEvent ?h (singleRecordEvent event r)") auto
  from processEvent_quiet[of ?h "singleRecordEvent event r"] pe
  have q: "dispatched acts = [singleRecordEvent event r]" by simp
  show ?thesis
    by (cases p; cases "postMessage E (case p of RetParser m n \<Rightarrow> m | _ \<Rightarrow> JNull)")
       (simp_all add: record_run_def pe q dispatched_append split: option.splits)
qed

lemma in_sequence_dispatched:
  "\<forall>x \<in> set xs. dispatched (snd (f x)) = [g x] \<Longrightarrow>
   (fst (in_sequence (map f xs)) = None \<longrightarrow> dispatched (snd (in_sequence (map f xs))) = map g xs)
   \<and> (\<exists>n. (xs \<noteq> [] \<longrightarrow> 0 < n) \<and> n \<le> length xs
          \<and> dispatched (snd (in_sequence (map f xs))) = take n (map g xs))"
proof (induction xs)
  case Nil
  show ?case by simp
next
  case (Cons x xs)
  obtain res acts where fx: "f x = (res, acts)" by (cases "f x") auto
  with Cons.prems have d: "dispatched acts = [g x]" by simp
  from Cons.prems have "\<forall>x \<in> set xs. dispatched (snd (f x)) = [g x]" by simp
  from Cons.IH[OF this] have
    all: "fst (in_sequence (map f xs)) = None \<longrightarrow> dispatched (snd (in_sequence (map f xs))) = map g xs"
    and ex: "\<exists>n. n \<le> length xs \<and> dispatched (snd (in_sequence (map f xs))) = take n (map g xs)"
    by auto
  from ex obtain n where
    n: "n \<le> length xs" "dispatched (snd (in_sequence (map f xs))) = take n (map g xs)"
    by auto
  obtain res' later where rest: "in_sequence (map f xs) = (res', later)"
    by (cases "in_sequence (map f xs)") auto
  show ?case
  proof (cases res)
    case None
    have "dispatched (snd (in_sequence (map f (x # xs)))) = take (Suc n) (map g (x # xs))"
      using n by (simp add: fx None rest d dispatched_append)
    moreover have "fst (in_sequence (map f (x # xs))) = None \<longrightarrow>
                   dispatched (snd (in_sequence (map f (x # xs)))) = map g (x # xs)"
      using all by (simp add: fx None rest d dispatched_append)
    ultimately show ?thesis using n(1) by (intro conjI exI[of _ "Suc n"]) simp_all
  next
    case (Some e)
    have "dispatched (snd (in_sequence (map f (x # xs)))) = take 1 (map g (x # xs))"
      by (simp add: fx Some d)
    moreover have "fst (in_sequence (map f (x # xs))) \<noteq> None" by (simp add: fx Some)
    ultimately show ?thesis by (intro conjI exI[of _ 1]) auto
  qed
qed

lemma dispatched_handler:
  "dispatched (snd (handler E raw)) = dispatched (snd (try_body E (fst (decode_event E raw))))"
  by (auto simp add: handler_def report_def decode_event_def dispatched_append
      split: prod.splits option.splits jsvalue.splits)

lemma try_body_records:
  assumes "get_Records event = Inr (JArr rs)" and "1 < length rs"
  shows "try_body E event =
           in_sequence (map (\<lambda>(i, r). record_run E event i r) (enumerate 0 rs))"
proof -
  have fresh: "new_LambdaHandler (module_parsers E)
                 = (new_LambdaHandler (module_parsers E))\<lparr>lastParser := None\<rparr>"
    by (simp add: new_LambdaHandler_def)
  have "try_body E event = records_loop E (new_LambdaHandler (module_parsers E)) event 0 rs"
    using assms by (simp add: try_body_def)
  also have "\<dots> = in_sequence (map (\<lambda>(i, r). record_run E event i r) (enumerate 0 rs))"
    using records_loop_in_sequence[of E None event 0 rs] fresh by simp
  finally show ?thesis .
qed

lemma map_enumerate_snd: "map (\<lambda>(i, r). h r) (enumerate n rs) = map h rs"
  by (induction rs arbitrary: n) simp_all

lemma try_body_single:
  assumes "get_Records event = Inr v" and "\<forall>rs. v = JArr rs \<longrightarrow> length rs \<le> 1"
  shows "try_body E event = single_event E (new_LambdaHandler (module_parsers E)) event"
  using assms by (cases v) (auto simp add: try_body_def)

lemma record_run_outcome:
  "fst (record_run E event i r) = delivery E event r
   \<and> posted (snd (record_run E event i r)) = forwarded E event r
   \<and> dispatched (snd (record_run E event i r)) = [singleRecordEvent event r]"
proof -
  let ?h = "new_LambdaHandler (module_parsers E)"
  obtain p h' acts where pe: "processEvent ?h (singleRecordEvent event r) = (p, h', acts)"
    by (cases "processEvent ?h (singleRecordEvent event r)") auto
  from processEvent_quiet[of ?h "singleRecordEvent event r"] pe
  have q: "posted acts = []" "dispatched acts = [singleRecordEvent event r]" by simp_all
  show ?thesis
  proof (cases p)
    case (RetParser message name)
    then show ?thesis
      by (cases "postMessage E message")
         (simp_all add: record_run_def delivery_def forwarded_def pe q posted_append dispatched_append)
  next
    case RetNull
    then show ?thesis
      by (simp add: record_run_def delivery_def forwarded_def pe q posted_append dispatched_append
          split: option.splits)
  next
    case RetUndefined
    then show ?thesis
      by (simp add: record_run_def delivery_def forwarded_def pe q posted_append dispatched_append
          split: option.splits)
  qed
qed

lemma in_sequence_until_failure:
  "fst (in_sequence (map (\<lambda>(j, r). record_run E event j r) (enumerate i rs)))
     = (case dropWhile (\<lambda>r. delivery E event r = None) rs of
          [] \<Rightarrow> None | r # rest \<Rightarrow> delivery E event r)
   \<and> dispatched (snd (in_sequence (map (\<lambda>(j, r). record_run E event j r) (enumerate i rs))))
     = take (Suc (length (takeWhile (\<lambda>r. delivery E event r = None) rs)))
         (map (singleRecordEvent event) rs)
   \<and> posted (snd (in_sequence (map (\<lambda>(j, r). record_run E event j r) (enumerate i rs))))
     = concat (map (forwarded E event)
         (take (Suc (length (takeWhile (\<lambda>r. delivery E event r = None) rs))) rs))"
proof (induction rs arbitrary: i)
  case Nil
  show ?case by simp
next
  case (Cons r rs)
  obtain res acts where rr: "record_run E event i r = (res, acts)"
    by (cases "record_run E event i r") auto
  from record_run_outcome[of E event i r] rr
  have o: "res = delivery E event r" "posted acts = forwarded E event r"
    "dispatched acts = [singleRecordEvent event r]" by simp_all
  obtain res' later where rest:
    "in_sequence (map (\<lambda>(j, r). record_run E event j r) (enumerate (Suc i) rs)) = (res', later)"
    by (cases "in_sequence (map (\<lambda>(j, r). record_run E event j r) (enumerate (Suc i) rs))") auto
  note IH = Cons.IH[of "Suc i", unfolded rest fst_conv snd_conv]
  show ?case
  proof (cases "delivery E event r")
    case None
    with o(1) have "res = None" by simp
    then show ?thesis
      using IH None o(2,3) by (simp add: rr rest posted_append dispatched_append)
  next
    case (Some e)
    with o(1) have "res = Some e" by simp
    then show ?thesis
      using Some o(2,3) by (simp add: rr)
  qed
qed

lemma fst_handler_eq:
  "fst (handler E raw) =
     (case fst (try_body E (fst (decode_event E raw))) of None \<Rightarrow> Success | Some e \<Rightarrow> Failure e)"
  by (auto simp add: handler_def report_def split: prod.splits option.splits)

text \<open>
  C4 as the code has it (multi-record fan-out). Let \<open>event\<close> be the decoded event.
  When its \<^verbatim>\<open>Records\<close> is an array \<open>rs\<close> of more than one record, the \<^verbatim>\<open>try\<close> block is
  the sequence, in the order of \<open>rs\<close>, of the passes for the single records, each the pass
  a fresh handler would make for that record alone. Each pass enters \<^verbatim>\<open>processEvent\<close>
  exactly once, with the derived event, hands to Slack what that dispatch forwards, and
  ends as that delivery ends; for an object with distinct keys the derived event has the
  keys of the original in their order, with the value of \<^verbatim>\<open>Records\<close> replaced by the one
  element array of that record. A delivery that throws ends the fan-out: with \<open>k\<close> the
  number of records before the first whose delivery fails, \<^verbatim>\<open>processEvent\<close> is entered for
  records 0 to \<open>k\<close> and no other, what they forward is what Slack is handed, and the
  callback gets that delivery's error; when no delivery fails, \<^verbatim>\<open>processEvent\<close> is entered
  once per record, \<open>N\<close> times in all, and the callback gets no error. When \<^verbatim>\<open>Records\<close>
  is absent, is not an array, or has at most one element, \<^verbatim>\<open>processEvent\<close> is entered
  exactly once, with the event as it is.
\<close>

theorem fan_out:
  assumes "fst (decode_event E raw) = event"
  shows "(get_Records event = Inr (JArr rs) \<and> 1 < length rs \<longrightarrow>
            try_body E event =
              in_sequence (map (\<lambda>(i, r). record_run E event i r) (enumerate 0 rs))
          \<and> (\<forall>i r. dispatched (snd (record_run E event i r)) = [singleRecordEvent event r]
                  \<and> posted (snd (record_run E event i r)) = forwarded E event r
                  \<and> fst (record_run E event i r) = delivery E event r)
          \<and> (\<forall>props r. event = JObj props \<and> distinct (map fst props) \<longrightarrow>
                singleRecordEvent event r =
                  JObj (map (\<lambda>(k, v). if k = ''Records'' then (k, JArr [r]) else (k, v)) props))
          \<and> ((\<forall>m. m \<in> set (posted (snd (handler E raw))) \<longrightarrow> postMessage E m = None) \<longrightarrow>
                dispatched (snd (handler E raw)) = map (singleRecordEvent event) rs)
          \<and> (\<exists>n. 0 < n \<and> n \<le> length rs
                \<and> dispatched (snd (handler E raw)) = take n (map (singleRecordEvent event) rs))
          \<and> dispatched (snd (handler E raw))
              = take (Suc (length (takeWhile (\<lambda>r. delivery E event r = None) rs)))
                  (map (singleRecordEvent event) rs)
          \<and> posted (snd (handler E raw))
              = concat (map (forwarded E event)
                  (take (Suc (length (takeWhile (\<lambda>r. delivery E event r = None) rs))) rs))
          \<and> fst (handler E raw)
              = (case dropWhile (\<lambda>r. delivery E event r = None) rs of
                   [] \<Rightarrow> Success
                 | r # rest \<Rightarrow> (case delivery E event r of None \<Rightarrow> Success | Some e \<Rightarrow> Failure e)))
       \<and> (get_Records event = Inr v \<and> (\<forall>rs'. v = JArr rs' \<longrightarrow> length rs' \<le> 1) \<longrightarrow>
            dispatched (snd (handler E raw)) = [event])"
proof (intro conjI impI allI; (elim conjE)?)
  assume R: "get_Records event = Inr (JArr rs)" and N: "1 < length rs"
  show A1: "try_body E event =
              in_sequence (map (\<lambda>(i, r). record_run E event i r) (enumerate 0 rs))"
    by (rule try_body_records[OF R N])
  let ?f = "\<lambda>(i, r). record_run E event i r"
  let ?g = "\<lambda>(i :: nat, r). singleRecordEvent event r"
  have each: "\<forall>x \<in> set (enumerate 0 rs). dispatched (snd (?f x)) = [?g x]"
    by (auto simp add: record_run_dispatched)
  have g: "map ?g (enumerate 0 rs) = map (singleRecordEvent event) rs"
    by (rule map_enumerate_snd)
  note S = in_sequence_dispatched[of "enumerate 0 rs" ?f ?g, OF each]
  note U = in_sequence_until_failure[of E event 0 rs]
  have D: "dispatched (snd (handler E raw)) = dispatched (snd (in_sequence (map ?f (enumerate 0 rs))))"
    by (simp add: dispatched_handler assms A1)
  have P: "posted (snd (handler E raw)) = posted (snd (in_sequence (map ?f (enumerate 0 rs))))"
    by (simp add: posted_handler assms A1)
  from S N show "\<exists>n. 0 < n \<and> n \<le> length rs
                \<and> dispatched (snd (handler E raw)) = take n (map (singleRecordEvent event) rs)"
    by (auto simp add: D g)
  from U show "dispatched (snd (handler E raw))
              = take (Suc (length (takeWhile (\<lambda>r. delivery E event r = None) rs)))
                  (map (singleRecordEvent event) rs)"
    by (simp only: D)
  from U show "posted (snd (handler E raw))
              = concat (map (forwarded E event)
                  (take (Suc (length (takeWhile (\<lambda>r. delivery E event r = None) rs))) rs))"
    by (simp only: P)
  from U have tb: "fst (try_body E event) =
      (case dropWhile (\<lambda>r. delivery E event r = None) rs of
          [] \<Rightarrow> None | r # rest \<Rightarrow> delivery E event r)"
    by (simp only: A1)
  show "fst (handler E raw)
              = (case dropWhile (\<lambda>r. delivery E event r = None) rs of
                   [] \<Rightarrow> Success
                 | r # rest \<Rightarrow> (case delivery E event r of None \<Rightarrow> Success | Some e \<Rightarrow> Failure e))"
  proof (cases "dropWhile (\<lambda>r. delivery E event r = None) rs")
    case Nil
    with tb have "fst (try_body E event) = None" by (simp only: list.case)
    then show ?thesis unfolding Nil by (simp add: fst_handler_eq assms)
  next
    case (Cons r rest)
    with tb have "fst (try_body E event) = delivery E event r" by (simp only: list.case)
    then show ?thesis unfolding Cons by (simp add: fst_handler_eq assms)
  qed
  assume ok: "\<forall>m. m \<in> set (posted (snd (handler E raw))) \<longrightarrow> postMessage E m = None"
  have "fst (try_body E event) = None"
  proof (cases "fst (try_body E event)")
    case None
    then show ?thesis .
  next
    case (Some e)
    from R have "\<not> nullish event" by (cases event) simp_all
    with Some try_body_failure[of E event e] ok posted_handler[of E raw] assms
    show ?thesis by auto
  qed
  with S show "dispatched (snd (handler E raw)) = map (singleRecordEvent event) rs"
    by (simp add: D g A1)
next
  fix i r
  from record_run_outcome[of E event i r]
  show "dispatched (snd (record_run E event i r)) = [singleRecordEvent event r]"
    and "posted (snd (record_run E event i r)) = forwarded E event r"
    and "fst (record_run E event i r) = delivery E event r"
    by simp_all
next
  fix props r
  assume R: "get_Records event = Inr (JArr rs)"
    and ev: "event = JObj props" and d: "distinct (map fst props)"
  from R ev have "map_of props ''Records'' = Some (JArr rs)"
    by (simp split: option.splits)
  from singleRecordEvent_fields[OF d this] ev
  show "singleRecordEvent event r =
          JObj (map (\<lambda>(k, v). if k = ''Records'' then (k, JArr [r]) else (k, v)) props)"
    by simp
next
  assume R: "get_Records event = Inr v" and one: "\<forall>rs'. v = JArr rs' \<longrightarrow> length rs' \<le> 1"
  from try_body_single[OF R one, of E]
    single_event_runs[of E "new_LambdaHandler (module_parsers E)" event]
  show "dispatched (snd (handler E raw)) = [event]"
    by (simp add: dispatched_handler assms)
qed

theorem fan_out_witness:
  "get_Records (JObj [(''Records'', JArr [JStr ''a'', JStr ''b'', JStr ''c''])])
     = Inr (JArr [JStr ''a'', JStr ''b'', JStr ''c''])
   \<and> handler (slack_rejects (JObj [(''Records'', JArr [JStr ''b''])]) [(''generic'', echo)])
       (JObj [(''Records'', JArr [JStr ''a'', JStr ''b'', JStr ''c''])])
     = (Failure (Thrown (JStr ''rejected'')),
        [ConsoleLog ''Incoming Message:''
           [Json (JObj [(''Records'', JArr [JStr ''a'', JStr ''b'', JStr ''c''])])],
         ProcessEvent (JObj [(''Records'', JArr [JStr ''a''])]),
         Construct 0, Parse 0 (JObj [(''Records'', JArr [JStr ''a''])]),
         ConsoleLog ''Sending Slack message from SNS-Parser[generic]:''
           [Json (JObj [(''Records'', JArr [JStr ''a''])])],
         PostMessage (JObj [(''Records'', JArr [JStr ''a''])]),
         ProcessEvent (JObj [(''Records'', JArr [JStr ''b''])]),
         Construct 0, Parse 0 (JObj [(''Records'', JArr [JStr ''b''])]),
         ConsoleLog ''Sending Slack message from SNS-Parser[generic]:''
           [Json (JObj [(''Records'', JArr [JStr ''b''])])],
         PostMessage (JObj [(''Records'', JArr [JStr ''b''])]),
         ConsoleLog ''ERROR:'' [Err (Thrown (JStr ''rejected''))]])
   \<and> dispatched (snd (handler
         (slack_up [(''rds'', returns JUndefined), (''generic'', returns example_message)])
         (JObj [(''Type'', JStr ''batch''), (''Records'', JArr [JStr ''a'', JStr ''b''])])))
     = [JObj [(''Type'', JStr ''batch''), (''Records'', JArr [JStr ''a''])],
        JObj [(''Type'', JStr ''batch''), (''Records'', JArr [JStr ''b''])]]
   \<and> get_Records (JObj [(''Type'', JStr ''batch''), (''Records'', JArr [JStr ''a''])])
     = Inr (JArr [JStr ''a''])
   \<and> dispatched (snd (handler
         (slack_up [(''rds'', returns JUndefined), (''generic'', returns example_message)])
         (JObj [(''Type'', JStr ''batch''), (''Records'', JArr [JStr ''a''])])))
     = [JObj [(''Type'', JStr ''batch''), (''Records'', JArr [JStr ''a''])]]"
proof -
  let ?R = "slack_rejects (JObj [(''Records'', JArr [JStr ''b''])]) [(''generic'', echo)]"
  let ?three = "JObj [(''Records'', JArr [JStr ''a'', JStr ''b'', JStr ''c''])]"
  let ?E = "slack_up [(''rds'', returns JUndefined), (''generic'', returns example_message)]"
  let ?two = "JObj [(''Type'', JStr ''batch''), (''Records'', JArr [JStr ''a'', JStr ''b''])]"
  let ?one = "JObj [(''Type'', JStr ''batch''), (''Records'', JArr [JStr ''a''])]"
  have d3: "fst (decode_event ?R ?three) = ?three"
    and d2: "fst (decode_event ?E ?two) = ?two" and d1: "fst (decode_event ?E ?one) = ?one"
    by (simp_all add: decode_event_def)
  have M3: "get_Records ?three = Inr (JArr [JStr ''a'', JStr ''b'', JStr ''c''])
            \<and> 1 < length [JStr ''a'', JStr ''b'', JStr ''c'']"
    by simp
  have del: "delivery ?R ?three (JStr ''a'') = None"
    "delivery ?R ?three (JStr ''b'') = Some (Thrown (JStr ''rejected''))"
    by (simp_all add: delivery_def slack_rejects_def echo_def processEvent_def
        new_LambdaHandler_def singleRecordEvent_def assign_def)
  note C = fan_out[OF d3, of "[JStr ''a'', JStr ''b'', JStr ''c'']" JUndefined,
                   THEN conjunct1, rule_format, OF M3]
  from C[THEN conjunct2, THEN conjunct2, THEN conjunct2, THEN conjunct2, THEN conjunct2,
         THEN conjunct1]
  have dis: "dispatched (snd (handler ?R ?three)) =
      [JObj [(''Records'', JArr [JStr ''a''])], JObj [(''Records'', JArr [JStr ''b''])]]"
    by (simp add: del singleRecordEvent_def assign_def)
  from C[THEN conjunct2, THEN conjunct2, THEN conjunct2, THEN conjunct2, THEN conjunct2,
         THEN conjunct2, THEN conjunct2]
  have fail: "fst (handler ?R ?three) = Failure (Thrown (JStr ''rejected''))"
    by (simp add: del)
  have run: "handler ?R ?three
     = (Failure (Thrown (JStr ''rejected'')),
        [ConsoleLog ''Incoming Message:'' [Json ?three],
         ProcessEvent (JObj [(''Records'', JArr [JStr ''a''])]),
         Construct 0, Parse 0 (JObj [(''Records'', JArr [JStr ''a''])]),
         ConsoleLog ''Sending Slack message from SNS-Parser[generic]:''
           [Json (JObj [(''Records'', JArr [JStr ''a''])])],
         PostMessage (JObj [(''Records'', JArr [JStr ''a''])]),
         ProcessEvent (JObj [(''Records'', JArr [JStr ''b''])]),
         Construct 0, Parse 0 (JObj [(''Records'', JArr [JStr ''b''])]),
         ConsoleLog ''Sending Slack message from SNS-Parser[generic]:''
           [Json (JObj [(''Records'', JArr [JStr ''b''])])],
         PostMessage (JObj [(''Records'', JArr [JStr ''b''])]),
         ConsoleLog ''ERROR:'' [Err (Thrown (JStr ''rejected''))]])"
    using dis fail
    by (simp add: handler_def decode_event_def try_body_def report_def slack_rejects_def echo_def
        processEvent_def new_LambdaHandler_def singleRecordEvent_def assign_def)
  have quiet: "\<forall>m. m \<in> set (posted (snd (handler ?E ?two))) \<longrightarrow> postMessage ?E m = None"
    by (simp add: slack_up_def)
  have M2: "get_Records ?two = Inr (JArr [JStr ''a'', JStr ''b''])
            \<and> 1 < length [JStr ''a'', JStr ''b'']"
    by simp
  from fan_out[OF d2, of "[JStr ''a'', JStr ''b'']" JUndefined, THEN conjunct1, rule_format,
               OF M2, THEN conjunct2, THEN conjunct2, THEN conjunct2, THEN conjunct1,
               THEN mp, OF quiet]
  have two: "dispatched (snd (handler ?E ?two)) =
      [JObj [(''Type'', JStr ''batch''), (''Records'', JArr [JStr ''a''])],
       JObj [(''Type'', JStr ''batch''), (''Records'', JArr [JStr ''b''])]]"
    by (simp add: singleRecordEvent_def assign_def)
  have M1: "get_Records ?one = Inr (JArr [JStr ''a''])
            \<and> (\<forall>rs'. JArr [JStr ''a''] = JArr rs' \<longrightarrow> length rs' \<le> 1)"
    by auto
  from fan_out[OF d1, of "[]" "JArr [JStr ''a'']", THEN conjunct2, rule_format, OF M1]
  have one: "dispatched (snd (handler ?E ?one)) = [?one]" .
  show ?thesis using run two one by simp
qed

text \<open>
  C4 as stated fails: with two records and a Slack client that is down, the first
  delivery throws and the second record is never dispatched; \<^verbatim>\<open>processEvent\<close> is entered
  once, not twice.
\<close>

theorem fan_out_stops_at_failed_delivery:
  "get_Records (JObj [(''Records'', JArr [JStr ''a'', JStr ''b''])])
     = Inr (JArr [JStr ''a'', JStr ''b''])
   \<and> handler (slack_down [(''generic'', returns example_message)])
       (JObj [(''Records'', JArr [JStr ''a'', JStr ''b''])])
     = (Failure (Thrown (JStr ''down'')),
        [ConsoleLog ''Incoming Message:'' [Json (JObj [(''Records'', JArr [JStr ''a'', JStr ''b''])])],
         ProcessEvent (JObj [(''Records'', JArr [JStr ''a''])]),
         Construct 0, Parse 0 (JObj [(''Records'', JArr [JStr ''a''])]),
         ConsoleLog ''Sending Slack message from SNS-Parser[generic]:'' [Json example_message],
         PostMessage example_message,
         ConsoleLog ''ERROR:'' [Err (Thrown (JStr ''down''))]])"
  by (simp add: decode_event_def slack_down_def singleRecordEvent_def assign_def
      try_body_def handler_def report_def processEvent_def new_LambdaHandler_def
      returns_def example_message_def)

section \<open>Suppression and exhaustion\<close>

text \<open>
  X1 (what holds of suppression). Let every parser class before \<open>k\<close> decline or fault and let
  class \<open>k\<close> return \<^verbatim>\<open>true\<close>, an empty object or an empty array. Then \<^verbatim>\<open>processEvent\<close>
  returns \<^verbatim>\<open>null\<close> with \<^verbatim>\<open>lastParser\<close> the name of class \<open>k\<close>, no class after \<open>k\<close> is
  invoked, and the single event branch hands nothing to Slack and does not throw.
\<close>

theorem suppression_stops_dispatch:
  assumes "k < length table"
    and "\<forall>j<k. declines_or_faults (snd (table ! j)) event"
    and "construct (snd (table ! k)) = None"
    and "parse (snd (table ! k)) event = Inr V"
    and "V = JBool True \<or> V = JObj [] \<or> V = JArr []"
  shows "fst (processEvent ((new_LambdaHandler table)\<lparr>lastParser := lp\<rparr>) event) = RetNull
       \<and> lastParser (fst (snd (processEvent ((new_LambdaHandler table)\<lparr>lastParser := lp\<rparr>) event)))
           = Some (fst (table ! k))
       \<and> set (invoked (snd (snd (processEvent ((new_LambdaHandler table)\<lparr>lastParser := lp\<rparr>) event))))
           = {..k}
       \<and> fst (single_event E ((new_LambdaHandler table)\<lparr>lastParser := lp\<rparr>) event) = None
       \<and> posted (snd (single_event E ((new_LambdaHandler table)\<lparr>lastParser := lp\<rparr>) event)) = []"
proof -
  obtain n P where nP: "table ! k = (n, P)" by (cases "table ! k")
  have here: "parser_loop k ((n, P) # drop (Suc k) table) event None
                = (RetNull, Some n, [Construct k, Parse k event])"
    using assms(3-5) by (auto simp add: nP)
  have whole: "parser_loop 0 table event lp =
                 (RetNull, Some n,
                  snd (snd (parser_loop 0 (take k table) event lp)) @ [Construct k, Parse k event])"
    using parser_loop_skip[OF assms(1,2), of 0 lp None]
    by (simp add: nP here del: parser_loop.simps)
  have run: "processEvent ((new_LambdaHandler table)\<lparr>lastParser := lp\<rparr>) event =
               (RetNull, (new_LambdaHandler table)\<lparr>lastParser := Some n\<rparr>,
                ProcessEvent event # snd (snd (parser_loop 0 (take k table) event lp))
                @ [Construct k, Parse k event])"
    by (simp add: processEvent_new whole)
  have quiet: "posted (snd (snd (parser_loop 0 (take k table) event lp))) = []"
    using parser_loop_quiet[of 0 "take k table" event lp] by simp
  have "insert k {0..<k} = {..k}" by auto
  then show ?thesis
    using invoked_skipped[OF assms(1,2), of 0 lp] quiet
    by (simp add: run nP invoked_append posted_append single_event_def)
qed

theorem suppression_stops_dispatch_witness:
  "declines_or_faults (throws (Thrown (JStr ''boom''))) (JObj [])
   \<and> handler (slack_up [(''rds'', throws (Thrown (JStr ''boom''))), (''codebuild'', returns (JBool True)),
                        (''generic'', returns example_message)]) (JObj [])
     = (Success,
        [ConsoleLog ''Incoming Message:'' [Json (JObj [])],
         ProcessEvent (JObj []), Construct 0, Parse 0 (JObj []),
         ConsoleError ''Error parsing event [parser:rds]:'' [Err (Thrown (JStr ''boom''))],
         Construct 1, Parse 1 (JObj []),
         ConsoleError ''Parser[undefined] is force-ignoring event'' []])"
  using suppression_stops_dispatch
    [of 1 "[(''rds'', throws (Thrown (JStr ''boom''))), (''codebuild'', returns (JBool True)),
            (''generic'', returns example_message)]" "JObj []" "JBool True" None
        "slack_up [(''rds'', throws (Thrown (JStr ''boom''))), (''codebuild'', returns (JBool True)),
                   (''generic'', returns example_message)]"]
  by (simp add: declines_or_faults_def throws_def returns_def handler_def decode_event_def
      slack_up_def try_body_def report_def single_event_def processEvent_def new_LambdaHandler_def)

lemma exhausted_loop:
  assumes "\<forall>p \<in> set table. declines_or_faults (snd p) event"
  shows "fst (processEvent ((new_LambdaHandler table)\<lparr>lastParser := lp\<rparr>) event) = RetUndefined"
  using parser_loop_all_decline[OF assms, of 0 lp]
  by (cases "parser_loop 0 table event lp") (simp add: processEvent_new)

lemma exhausted_records_loop:
  assumes "\<forall>p \<in> set table. \<forall>ev. declines_or_faults (snd p) ev" and "module_parsers E = table"
  shows "fst (records_loop E ((new_LambdaHandler table)\<lparr>lastParser := lp\<rparr>) event i rs) = None
       \<and> posted (snd (records_loop E ((new_LambdaHandler table)\<lparr>lastParser := lp\<rparr>) event i rs)) = []"
proof (induction rs arbitrary: i lp)
  case Nil
  show ?case by simp
next
  case (Cons r rs)
  let ?h = "(new_LambdaHandler table)\<lparr>lastParser := lp\<rparr>"
  let ?ev = "singleRecordEvent event r"
  from assms(1) have all: "\<forall>p \<in> set table. declines_or_faults (snd p) ?ev" by simp
  obtain ret lp' acts where loop: "parser_loop 0 table ?ev lp = (ret, lp', acts)"
    by (cases "parser_loop 0 table ?ev lp") auto
  from exhausted_loop[OF all, of lp] loop have ret: "ret = RetUndefined"
    by (simp add: processEvent_new)
  have run: "processEvent ?h ?ev =
               (RetUndefined, (new_LambdaHandler table)\<lparr>lastParser := lp'\<rparr>, ProcessEvent ?ev # acts)"
    by (simp add: processEvent_new loop ret)
  have q: "posted acts = []"
    using parser_loop_quiet[of 0 table ?ev lp] loop by simp
  obtain res later where rest:
    "records_loop E ((new_LambdaHandler table)\<lparr>lastParser := lp'\<rparr>) event (Suc i) rs = (res, later)"
    by (cases "records_loop E ((new_LambdaHandler table)\<lparr>lastParser := lp'\<rparr>) event (Suc i) rs") auto
  from Cons.IH[of lp' "Suc i"] rest have "res = None" "posted later = []" by simp_all
  then show ?case
    by (simp add: run rest q posted_append split: option.splits)
qed

text \<open>
  X2 (what holds of exhaustion). When every parser class of the table declines or faults on
  every event, the handler, on any event other than null and undefined, hands nothing to
  Slack and reports success, whether or not Slack is up.
\<close>

theorem exhaustion_delivers_nothing:
  assumes "\<forall>p \<in> set (module_parsers E). \<forall>ev. declines_or_faults (snd p) ev"
    and "\<not> nullish (fst (decode_event E raw))"
  shows "fst (handler E raw) = Success \<and> posted (snd (handler E raw)) = []"
proof -
  let ?T = "module_parsers E"
  let ?ev = "fst (decode_event E raw)"
  have fresh: "new_LambdaHandler ?T = (new_LambdaHandler ?T)\<lparr>lastParser := None\<rparr>"
    by (simp add: new_LambdaHandler_def)
  from assms(1) have all: "\<forall>p \<in> set ?T. declines_or_faults (snd p) ?ev" by simp
  have single: "posted (snd (single_event E (new_LambdaHandler ?T) ?ev)) = []"
  proof -
    obtain ret h' acts where run: "processEvent (new_LambdaHandler ?T) ?ev = (ret, h', acts)"
      by (cases "processEvent (new_LambdaHandler ?T) ?ev") auto
    from exhausted_loop[OF all, of None] fresh run have "ret = RetUndefined" by simp
    moreover from processEvent_quiet[of "new_LambdaHandler ?T" ?ev] run have "posted acts = []"
      by simp
    ultimately show ?thesis by (simp add: single_event_def run posted_append)
  qed
  have multi: "\<And>rs. posted (snd (records_loop E (new_LambdaHandler ?T) ?ev 0 rs)) = []"
    using exhausted_records_loop[OF assms(1) refl, of None ?ev 0] fresh by simp
  have "posted (snd (try_body E ?ev)) = []"
    using single multi
    by (cases "get_Records ?ev") (simp_all add: try_body_def Let_def split: jsvalue.splits)
  then have silent: "posted (snd (handler E raw)) = []" by (simp add: posted_handler)
  have "fst (handler E raw) \<noteq> Failure e" for e
  proof
    assume "fst (handler E raw) = Failure e"
    with handler_failure[of E raw e] assms(2)
    obtain m where "m \<in> set (posted (snd (handler E raw)))" by auto
    with silent show False by simp
  qed
  then have "fst (handler E raw) = Success" by (cases "fst (handler E raw)") auto
  with silent show ?thesis by simp
qed

theorem exhaustion_delivers_nothing_witness:
  "declines_or_faults (returns (JBool False)) (JStr ''any event'')
   \<and> declines_or_faults (throws (Thrown (JStr ''boom''))) (JStr ''any event'')
   \<and> \<not> nullish (JObj [(''Records'', JArr [JStr ''a'', JStr ''b''])])
   \<and> fst (handler (slack_down [(''rds'', returns (JBool False)), (''generic'', throws (Thrown (JStr ''boom'')))])
            (JObj [(''Records'', JArr [JStr ''a'', JStr ''b''])])) = Success
   \<and> posted (snd (handler (slack_down [(''rds'', returns (JBool False)), (''generic'', throws (Thrown (JStr ''boom'')))])
            (JObj [(''Records'', JArr [JStr ''a'', JStr ''b''])]))) = []"
  using exhaustion_delivers_nothing
    [of "slack_down [(''rds'', returns (JBool False)), (''generic'', throws (Thrown (JStr ''boom'')))]"
        "JObj [(''Records'', JArr [JStr ''a'', JStr ''b''])]"]
  by (simp add: declines_or_faults_def returns_def throws_def slack_down_def decode_event_def)

section \<open>Diagnostics of suppression and exhaustion\<close>

text \<open>
  C2 (suppression) at an event that the first parser suppresses with an empty object.
  Dispatch stops at that parser and nothing is handed to Slack, but the diagnostic of the
  single event branch reads \<^verbatim>\<open>Parser[undefined] is force-ignoring event\<close>: it
  interpolates \<^verbatim>\<open>handler.parserName\<close>, which no LambdaHandler has, where the branch for
  several records interpolates \<^verbatim>\<open>handler.lastParser\<close> and does name the parser.
\<close>

theorem suppression_diagnostic_names_nothing:
  "handler (slack_up [(''codebuild'', returns (JObj [])), (''generic'', returns example_message)])
     (JObj [(''source'', JStr ''aws.codebuild'')]) =
     (Success,
      [ConsoleLog ''Incoming Message:'' [Json (JObj [(''source'', JStr ''aws.codebuild'')])],
       ProcessEvent (JObj [(''source'', JStr ''aws.codebuild'')]),
       Construct 0, Parse 0 (JObj [(''source'', JStr ''aws.codebuild'')]),
       ConsoleError ''Parser[undefined] is force-ignoring event'' []])
   \<and> handler (slack_up [(''codebuild'', returns (JObj [])), (''generic'', returns example_message)])
     (JObj [(''Records'', JArr [JStr ''a'', JStr ''b''])]) =
     (Success,
      [ConsoleLog ''Incoming Message:'' [Json (JObj [(''Records'', JArr [JStr ''a'', JStr ''b''])])],
       ProcessEvent (JObj [(''Records'', JArr [JStr ''a''])]),
       Construct 0, Parse 0 (JObj [(''Records'', JArr [JStr ''a''])]),
       ConsoleError ''Parser force-ignoring SNS event[0]: codebuild'' [],
       ProcessEvent (JObj [(''Records'', JArr [JStr ''b''])]),
       Construct 0, Parse 0 (JObj [(''Records'', JArr [JStr ''b''])]),
       ConsoleError ''Parser force-ignoring SNS event[1]: codebuild'' []])"
  by (simp add: handler_def decode_event_def slack_up_def try_body_def report_def
      single_event_def processEvent_def new_LambdaHandler_def returns_def
      singleRecordEvent_def assign_def)

text \<open>
  C5 (exhaustion) at an event on which every parser declines or faults. Nothing is handed
  to Slack and the callback reports success, but the diagnostic is the one of a
  suppression, not \<^verbatim>\<open>No parser matched event\<close>: \<^verbatim>\<open>processEvent\<close> has set
  \<^verbatim>\<open>lastParser\<close> at every attempt, so the test \<^verbatim>\<open>else if (handler.lastParser)\<close> holds
  after an exhausted loop as it does after a suppression. The same happens in the branch
  for several records.
\<close>

theorem exhaustion_reported_as_ignored:
  "handler (slack_up [(''rds'', returns (JBool False)), (''generic'', throws (Thrown (JStr ''boom'')))])
     (JObj [(''source'', JStr ''aws.ec2'')]) =
     (Success,
      [ConsoleLog ''Incoming Message:'' [Json (JObj [(''source'', JStr ''aws.ec2'')])],
       ProcessEvent (JObj [(''source'', JStr ''aws.ec2'')]),
       Construct 0, Parse 0 (JObj [(''source'', JStr ''aws.ec2'')]),
       Construct 1, Parse 1 (JObj [(''source'', JStr ''aws.ec2'')]),
       ConsoleError ''Error parsing event [parser:generic]:'' [Err (Thrown (JStr ''boom''))],
       ConsoleError ''Parser[undefined] is force-ignoring event'' []])
   \<and> handler (slack_up [(''generic'', returns JUndefined)])
     (JObj [(''Records'', JArr [JStr ''a'', JStr ''b''])]) =
     (Success,
      [ConsoleLog ''Incoming Message:'' [Json (JObj [(''Records'', JArr [JStr ''a'', JStr ''b''])])],
       ProcessEvent (JObj [(''Records'', JArr [JStr ''a''])]),
       Construct 0, Parse 0 (JObj [(''Records'', JArr [JStr ''a''])]),
       ConsoleError ''Parser force-ignoring SNS event[0]: generic'' [],
       ProcessEvent (JObj [(''Records'', JArr [JStr ''b''])]),
       Construct 0, Parse 0 (JObj [(''Records'', JArr [JStr ''b''])]),
       ConsoleError ''Parser force-ignoring SNS event[1]: generic'' []])"
  by (simp add: handler_def decode_event_def slack_up_def try_body_def report_def
      single_event_def processEvent_def new_LambdaHandler_def returns_def throws_def
      singleRecordEvent_def assign_def)

section \<open>The store during the fan-out\<close>

lemma copy_properties_heap:
  "distinct (map fst (target @ props)) \<Longrightarrow>
   foldl (\<lambda>t' (k, v :: hvalue). AList.update k v t') target props = target @ props"
proof (induction props arbitrary: target)
  case Nil
  show ?case by simp
next
  case (Cons kv props)
  obtain k v where kv: "kv = (k, v)" by (cases kv)
  from Cons.prems have fresh: "k \<notin> fst ` set target" by (auto simp add: kv)
  from Cons.prems have "distinct (map fst ((target @ [(k, v)]) @ props))" by (simp add: kv)
  from Cons.IH[OF this] show ?case by (simp add: kv update_fresh_key[OF fresh])
qed

lemma derive_eq:
  assumes "event < length h" and "h ! event = HObj props"
    and "distinct (map fst props)" and "map_of props ''Records'' = Some x"
  shows "derive h event r =
           (length h,
            h @ [HObj (replace_Records (Ref (Suc (length h))) props),
                 HArr [r],
                 HObj [(''Records'', Ref (Suc (length h)))]])"
proof -
  from assms(4) have present: "''Records'' \<in> fst ` set props"
    by (metis domI dom_map_of_conv_image_fst)
  let ?h3 = "h @ [HObj [], HArr [r], HObj [(''Records'', Ref (Suc (length h)))]]"
  have p_event: "properties ?h3 event = props"
    using assms(1,2) by (simp add: nth_append)
  have p_target: "properties ?h3 (length h) = []"
    by (simp add: nth_append)
  have p_src: "properties ?h3 (Suc (Suc (length h))) = [(''Records'', Ref (Suc (length h)))]"
    by (simp add: nth_append)
  have copy: "foldl (\<lambda>t' (k, v). AList.update k v t') [] props = props"
    using copy_properties_heap[of "[]" props] assms(3) by simp
  have upd: "AList.update ''Records'' (Ref (Suc (length h))) props
               = replace_Records (Ref (Suc (length h))) props"
    using update_present_key[OF assms(3), of "''Records''" "Ref (Suc (length h))"] present
    by (simp add: replace_Records_def)
  have "assign_heap ?h3 (length h) [event, Suc (Suc (length h))] =
          ?h3[length h := HObj (replace_Records (Ref (Suc (length h))) props)]"
    unfolding assign_heap_def by (simp only: foldl.simps p_event p_target p_src copy) (simp add: upd)
  then show ?thesis
    by (simp add: derive_def alloc_def list_update_append)
qed

lemma fan_out_heap_frame:
  assumes "event < length h" and "h ! event = HObj props"
    and "distinct (map fst props)" and "map_of props ''Records'' = Some (Ref recs)"
    and "recs < length h" and "h ! recs = HArr rs"
    and "\<forall>i \<in> set ixs. i < length rs"
  shows "take (length h) (snd (fan_out_heap h event ixs)) = h
       \<and> length (fst (fan_out_heap h event ixs)) = length ixs
       \<and> (\<forall>j < length ixs.
            length h \<le> fst (fan_out_heap h event ixs) ! j
          \<and> fst (fan_out_heap h event ixs) ! j < length (snd (fan_out_heap h event ixs))
          \<and> (\<exists>arr. length h \<le> arr \<and> arr < length (snd (fan_out_heap h event ixs))
                \<and> snd (fan_out_heap h event ixs) ! (fst (fan_out_heap h event ixs) ! j)
                    = HObj (replace_Records (Ref arr) props)
                \<and> snd (fan_out_heap h event ixs) ! arr = HArr [rs ! (ixs ! j)]))"
  using assms
proof (induction ixs arbitrary: h)
  case Nil
  show ?case by simp
next
  case (Cons i ixs)
  let ?r = "rs ! i"
  let ?block = "[HObj (replace_Records (Ref (Suc (length h))) props), HArr [?r],
                 HObj [(''Records'', Ref (Suc (length h)))]]"
  let ?h1 = "h @ ?block"
  have i: "i < length rs" using Cons.prems(7) by simp
  have rec: "element h (property h event ''Records'') i = ?r"
    using Cons.prems(1,2,4,5,6) i by (simp add: property_def)
  have d: "derive h event ?r = (length h, ?h1)"
    by (rule derive_eq[OF Cons.prems(1-4)])
  have pre1: "event < length ?h1" "?h1 ! event = HObj props" "recs < length ?h1"
    "?h1 ! recs = HArr rs" "\<forall>i \<in> set ixs. i < length rs"
    using Cons.prems by (simp_all add: nth_append)
  note IH = Cons.IH[OF pre1(1,2) Cons.prems(3,4) pre1(3,4,5)]
  obtain ds h2 where run: "fan_out_heap ?h1 event ixs = (ds, h2)"
    by (cases "fan_out_heap ?h1 event ixs") auto
  from IH run have keep: "take (length ?h1) h2 = ?h1" and len: "length ds = length ixs"
    and each: "\<forall>j < length ixs. length ?h1 \<le> ds ! j \<and> ds ! j < length h2
          \<and> (\<exists>arr. length ?h1 \<le> arr \<and> arr < length h2
                \<and> h2 ! (ds ! j) = HObj (replace_Records (Ref arr) props)
                \<and> h2 ! arr = HArr [rs ! (ixs ! j)])"
    by simp_all
  have whole: "fan_out_heap h event (i # ixs) = (length h # ds, h2)"
    by (simp add: rec d run)
  from keep have long: "length ?h1 \<le> length h2"
    by (metis length_take min.cobounded1)
  from keep have old: "\<And>a. a < length ?h1 \<Longrightarrow> h2 ! a = ?h1 ! a"
    by (metis nth_take)
  have "take (length h) h2 = take (length h) (take (length ?h1) h2)"
    by (simp add: min_def)
  also have "\<dots> = h" by (simp only: keep) simp
  finally have frame: "take (length h) h2 = h" .
  have first: "length h < length h2" "h2 ! (length h) = HObj (replace_Records (Ref (Suc (length h))) props)"
    "Suc (length h) < length h2" "h2 ! (Suc (length h)) = HArr [?r]"
    using long old[of "length h"] old[of "Suc (length h)"] by (simp_all add: nth_append)
  have "\<forall>j < length (i # ixs).
            length h \<le> (length h # ds) ! j \<and> (length h # ds) ! j < length h2
          \<and> (\<exists>arr. length h \<le> arr \<and> arr < length h2
                \<and> h2 ! ((length h # ds) ! j) = HObj (replace_Records (Ref arr) props)
                \<and> h2 ! arr = HArr [rs ! ((i # ixs) ! j)])"
  proof (intro allI impI)
    fix j assume j: "j < length (i # ixs)"
    show "length h \<le> (length h # ds) ! j \<and> (length h # ds) ! j < length h2
          \<and> (\<exists>arr. length h \<le> arr \<and> arr < length h2
                \<and> h2 ! ((length h # ds) ! j) = HObj (replace_Records (Ref arr) props)
                \<and> h2 ! arr = HArr [rs ! ((i # ixs) ! j)])"
    proof (cases j)
      case 0
      with first show ?thesis by (intro conjI exI[of _ "Suc (length h)"]) simp_all
    next
      case (Suc j')
      with j have "j' < length ixs" by simp
      with each obtain arr where "length ?h1 \<le> ds ! j'" "ds ! j' < length h2"
        "length ?h1 \<le> arr" "arr < length h2"
        "h2 ! (ds ! j') = HObj (replace_Records (Ref arr) props)"
        "h2 ! arr = HArr [rs ! (ixs ! j')]"
        by blast
      then show ?thesis using Suc by (intro conjI exI[of _ arr]) simp_all
    qed
  qed
  then show ?case using frame len by (simp only: whole fst_conv snd_conv) simp
qed

lemma those_map_Some:
  "those (map f xs) = Some ys \<longleftrightarrow> list_all2 (\<lambda>x y. f x = Some y) xs ys"
proof (induction xs arbitrary: ys)
  case Nil
  show ?case by auto
next
  case (Cons x xs)
  show ?case
    by (cases "f x"; cases ys) (auto simp add: Cons.IH split: option.splits)
qed

lemma reify_frame:
  assumes "take (length h) h' = h"
  shows "reify n h v = Some x \<Longrightarrow> reify n h' v = Some x"
proof (induction n arbitrary: v x)
  case 0
  then show ?case by (cases v) simp_all
next
  case (Suc n)
  have long: "length h \<le> length h'" using assms by (metis length_take min.cobounded1)
  have old: "\<And>a. a < length h \<Longrightarrow> h' ! a = h ! a" using assms by (metis nth_take)
  show ?case
  proof (cases v)
    case (Ref a)
    with Suc.prems have a: "a < length h" by (simp split: if_splits)
    then have a': "a < length h'" using long by simp
    show ?thesis
    proof (cases "h ! a")
      case (HArr vs)
      with Suc.prems Ref a obtain ys where x: "x = JArr ys"
        and ys: "list_all2 (\<lambda>v y. reify n h v = Some y) vs ys"
        by (auto simp add: those_map_Some)
      from ys have "list_all2 (\<lambda>v y. reify n h' v = Some y) vs ys"
        by (rule list_all2_mono) (rule Suc.IH)
      then show ?thesis
        using Ref a' old[OF a] HArr x by (simp add: those_map_Some[symmetric])
    next
      case (HObj kvs)
      with Suc.prems Ref a obtain ys where x: "x = JObj ys"
        and ys: "list_all2 (\<lambda>kv y. (case kv of (k, v) \<Rightarrow> map_option (Pair k) (reify n h v)) = Some y) kvs ys"
        by (auto simp add: those_map_Some)
      from ys have "list_all2 (\<lambda>kv y. (case kv of (k, v) \<Rightarrow> map_option (Pair k) (reify n h' v)) = Some y) kvs ys"
        by (rule list_all2_mono) (auto dest: Suc.IH)
      then show ?thesis
        using Ref a' old[OF a] HObj x by (simp add: those_map_Some[symmetric])
    qed
  qed (insert Suc.prems, simp_all)
qed

lemma reify_object:
  "reify n h (Ref a) = Some ev \<longleftrightarrow>
     (\<exists>m. n = Suc m \<and> a < length h \<and>
        (case h ! a of
           HArr vs \<Rightarrow> \<exists>xs. ev = JArr xs \<and> list_all2 (\<lambda>v x. reify m h v = Some x) vs xs
         | HObj kvs \<Rightarrow>
             \<exists>fs. ev = JObj fs \<and>
               list_all2 (\<lambda>kv f. fst f = fst kv \<and> reify m h (snd kv) = Some (snd f)) kvs fs))"
proof (cases n)
  case 0
  then show ?thesis by simp
next
  case (Suc m)
  have eq: "(\<lambda>kv y. (case kv of (k, v) \<Rightarrow> map_option (Pair k) (reify m h v)) = Some y)
          = (\<lambda>kv f. fst f = fst kv \<and> reify m h (snd kv) = Some (snd f))"
    by (intro ext) (auto split: prod.splits)
  show ?thesis
    by (cases "h ! a") (auto simp add: Suc those_map_Some eq)
qed

lemma derived_reads_as_singleRecordEvent:
  assumes "event < length h" and "h ! event = HObj props"
    and "distinct (map fst props)" and "map_of props ''Records'' = Some (Ref recs)"
    and "recs < length h" and "h ! recs = HArr rs"
    and "\<forall>i \<in> set ixs. i < length rs"
    and "reify n h (Ref event) = Some ev" and "j < length ixs"
  shows "\<exists>xs. get_Records ev = Inr (JArr xs) \<and> length xs = length rs \<and>
           reify n (snd (fan_out_heap h event ixs)) (Ref (fst (fan_out_heap h event ixs) ! j))
             = Some (singleRecordEvent ev (xs ! (ixs ! j)))"
proof -
  let ?h' = "snd (fan_out_heap h event ixs)"
  let ?d = "fst (fan_out_heap h event ixs) ! j"
  let ?i = "ixs ! j"
  note F = fan_out_heap_frame[OF assms(1-7)]
  from F have keep: "take (length h) ?h' = h" by simp
  from F assms(9) obtain arr where d: "?d < length ?h'" and arr: "arr < length ?h'"
    and hd: "?h' ! ?d = HObj (replace_Records (Ref arr) props)"
    and ha: "?h' ! arr = HArr [rs ! ?i]"
    by blast
  have i: "?i < length rs" using assms(7,9) by simp
  from assms(8) assms(1,2) obtain m fs where n: "n = Suc m" and ev: "ev = JObj fs"
    and fs: "list_all2 (\<lambda>kv f. fst f = fst kv \<and> reify m h (snd kv) = Some (snd f)) props fs"
    by (auto simp add: reify_object)
  from fs have keys: "map fst fs = map fst props"
    by (induction rule: list_all2_induct) simp_all
  from assms(4) have "(''Records'', Ref recs) \<in> set props" by (rule map_of_SomeD)
  then obtain p where p: "p < length props" "props ! p = (''Records'', Ref recs)"
    by (auto simp add: in_set_conv_nth)
  with fs have fp: "p < length fs" "fst (fs ! p) = ''Records''"
    "reify m h (Ref recs) = Some (snd (fs ! p))"
    by (auto simp add: list_all2_conv_all_nth)
  from fp(3) assms(5,6) obtain m' xs where m: "m = Suc m'" and X: "snd (fs ! p) = JArr xs"
    and xs: "list_all2 (\<lambda>v x. reify m' h v = Some x) rs xs"
    by (auto simp add: reify_object)
  from xs have len: "length xs = length rs" by (simp add: list_all2_lengthD)
  from xs i have xi: "reify m' h (rs ! ?i) = Some (xs ! ?i)"
    by (simp add: list_all2_conv_all_nth)
  have dfs: "distinct (map fst fs)" using keys assms(3) by simp
  have "(''Records'', JArr xs) \<in> set fs"
    using fp X by (metis nth_mem prod.collapse)
  with dfs have rec: "map_of fs ''Records'' = Some (JArr xs)" by simp
  have G: "get_Records ev = Inr (JArr xs)" by (simp add: ev rec)
  have S: "singleRecordEvent ev (xs ! ?i) =
             JObj (map (\<lambda>(k, v). if k = ''Records'' then (k, JArr [xs ! ?i]) else (k, v)) fs)"
    unfolding ev by (rule singleRecordEvent_fields[OF dfs rec])
  have arr_reads: "reify m ?h' (Ref arr) = Some (JArr [xs ! ?i])"
    using arr ha reify_frame[OF keep xi] by (simp add: m)
  have "list_all2 (\<lambda>kv f. fst f = fst kv \<and> reify m ?h' (snd kv) = Some (snd f))
          (replace_Records (Ref arr) props)
          (map (\<lambda>(k, v). if k = ''Records'' then (k, JArr [xs ! ?i]) else (k, v)) fs)"
    unfolding replace_Records_def list_all2_map1 list_all2_map2
    using fs
  proof (rule list_all2_mono)
    fix kv :: "string \<times> hvalue" and f :: "string \<times> jsvalue"
    assume "fst f = fst kv \<and> reify m h (snd kv) = Some (snd f)"
    then show "fst (case f of (k, v) \<Rightarrow> if k = ''Records'' then (k, JArr [xs ! ?i]) else (k, v))
                 = fst (case kv of (k, v) \<Rightarrow> if k = ''Records'' then (k, Ref arr) else (k, v))
             \<and> reify m ?h' (snd (case kv of (k, v) \<Rightarrow> if k = ''Records'' then (k, Ref arr) else (k, v)))
                 = Some (snd (case f of (k, v) \<Rightarrow> if k = ''Records'' then (k, JArr [xs ! ?i]) else (k, v)))"
      using arr_reads reify_frame[OF keep, of m "snd kv" "snd f"]
      by (cases kv; cases f) auto
  qed
  then have "reify n ?h' (Ref ?d) = Some (singleRecordEvent ev (xs ! ?i))"
    using d hd by (simp only: reify_object S n) auto
  with G len show ?thesis by blast
qed

text \<open>
  C10 (the fan-out does not mutate its input). Let the store hold the event, an object
  with distinct keys whose \<^verbatim>\<open>Records\<close> refers to an array \<open>rs\<close> of more than one record,
  and let the loop make \<open>n\<close> passes (all \<open>N\<close>, or fewer when a delivery fails). Afterwards
  every object that was in the store is as it was: the event object still has its
  properties, its \<^verbatim>\<open>Records\<close> still refers to the same array, and the array still holds
  all of \<open>rs\<close>. Each derived event is a new object at a fresh address, with the properties
  of the original (the same values and references: a shallow copy) but for \<^verbatim>\<open>Records\<close>,
  which refers to a new one element array holding record \<open>j\<close>. Read as values, the event
  reads after the loop as it read before, and derived event \<open>j\<close> reads as
  \<open>singleRecordEvent\<close> of the event and record \<open>j\<close>.
\<close>

theorem fan_out_leaves_event_unchanged:
  assumes "event < length h" and "h ! event = HObj props"
    and "distinct (map fst props)" and "map_of props ''Records'' = Some (Ref recs)"
    and "recs < length h" and "h ! recs = HArr rs"
    and "1 < length rs" and "n \<le> length rs"
    and "fan_out_heap h event [0..<n] = (ds, h')"
  shows "take (length h) h' = h
       \<and> h' ! event = HObj props \<and> h' ! recs = HArr rs
       \<and> element h' (property h' event ''Records'') = element h (property h event ''Records'')
       \<and> length ds = n
       \<and> (\<forall>j<n. length h \<le> ds ! j \<and> ds ! j < length h'
            \<and> (\<exists>arr. length h \<le> arr \<and> arr < length h'
                  \<and> h' ! (ds ! j) = HObj (replace_Records (Ref arr) props)
                  \<and> h' ! arr = HArr [rs ! j]))
       \<and> (\<forall>fuel ev. reify fuel h (Ref event) = Some ev \<longrightarrow>
             reify fuel h' (Ref event) = Some ev
           \<and> (\<forall>j<n. \<exists>xs. get_Records ev = Inr (JArr xs) \<and> length xs = length rs
                  \<and> reify fuel h' (Ref (ds ! j)) = Some (singleRecordEvent ev (xs ! j))))"
proof -
  have ixs: "\<forall>i \<in> set [0..<n]. i < length rs" using assms(8) by simp
  note F = fan_out_heap_frame[OF assms(1-6) ixs]
  from F assms(9) have keep: "take (length h) h' = h" and len: "length ds = n"
    and each: "\<forall>j<n. length h \<le> ds ! j \<and> ds ! j < length h'
            \<and> (\<exists>arr. length h \<le> arr \<and> arr < length h'
                  \<and> h' ! (ds ! j) = HObj (replace_Records (Ref arr) props)
                  \<and> h' ! arr = HArr [rs ! j])"
    by simp_all
  from keep have long: "length h \<le> length h'" by (metis length_take min.cobounded1)
  from keep have old: "\<And>a. a < length h \<Longrightarrow> h' ! a = h ! a" by (metis nth_take)
  have ev': "h' ! event = HObj props" and recs': "h' ! recs = HArr rs"
    using old assms(1,2,5,6) by simp_all
  have same: "element h' (property h' event ''Records'') = element h (property h event ''Records'')"
    using assms(1,2,4,5,6) ev' recs' long by (intro ext) (simp add: property_def)
  have reads: "\<forall>fuel ev. reify fuel h (Ref event) = Some ev \<longrightarrow>
             reify fuel h' (Ref event) = Some ev
           \<and> (\<forall>j<n. \<exists>xs. get_Records ev = Inr (JArr xs) \<and> length xs = length rs
                  \<and> reify fuel h' (Ref (ds ! j)) = Some (singleRecordEvent ev (xs ! j)))"
  proof (intro allI impI conjI)
    fix fuel ev j
    assume r: "reify fuel h (Ref event) = Some ev"
    show "reify fuel h' (Ref event) = Some ev" by (rule reify_frame[OF keep r])
    assume j: "j < n"
    then have "j < length [0..<n]" by simp
    from derived_reads_as_singleRecordEvent[OF assms(1-6) ixs r this] assms(9) j
    show "\<exists>xs. get_Records ev = Inr (JArr xs) \<and> length xs = length rs
                  \<and> reify fuel h' (Ref (ds ! j)) = Some (singleRecordEvent ev (xs ! j))"
      by simp
  qed
  show ?thesis using keep ev' recs' same len each reads by blast
qed

theorem fan_out_leaves_event_unchanged_witness:
  "fan_out_heap example_heap 0 [0..<2] =
     ([4, 7],
      example_heap @
      [HObj [(''Type'', HStr ''batch''), (''Records'', Ref 5)], HArr [Ref 2],
       HObj [(''Records'', Ref 5)],
       HObj [(''Type'', HStr ''batch''), (''Records'', Ref 8)], HArr [Ref 3],
       HObj [(''Records'', Ref 8)]])
   \<and> take (length example_heap) (snd (fan_out_heap example_heap 0 [0..<2])) = example_heap
   \<and> reify 3 example_heap (Ref 0) =
       Some (JObj [(''Type'', JStr ''batch''),
                   (''Records'', JArr [JObj [(''Sns'', JStr ''a'')], JObj [(''Sns'', JStr ''b'')]])])
   \<and> reify 3 (snd (fan_out_heap example_heap 0 [0..<2])) (Ref 7) =
       Some (JObj [(''Type'', JStr ''batch''), (''Records'', JArr [JObj [(''Sns'', JStr ''b'')]])])"
proof -
  have run: "fan_out_heap example_heap 0 [0..<2] =
     ([4, 7],
      example_heap @
      [HObj [(''Type'', HStr ''batch''), (''Records'', Ref 5)], HArr [Ref 2],
       HObj [(''Records'', Ref 5)],
       HObj [(''Type'', HStr ''batch''), (''Records'', Ref 8)], HArr [Ref 3],
       HObj [(''Records'', Ref 8)]])"
    by (simp add: example_heap_def upt_rec derive_def alloc_def assign_def assign_heap_def
        property_def)
  have whole: "reify 3 example_heap (Ref 0) =
       Some (JObj [(''Type'', JStr ''batch''),
                   (''Records'', JArr [JObj [(''Sns'', JStr ''a'')], JObj [(''Sns'', JStr ''b'')]])])"
    by (simp add: example_heap_def numeral_3_eq_3)
  have pre: "0 < length example_heap"
    "example_heap ! 0 = HObj [(''Type'', HStr ''batch''), (''Records'', Ref 1)]"
    "distinct (map fst [(''Type'', HStr ''batch''), (''Records'', Ref 1)])"
    "map_of [(''Type'', HStr ''batch''), (''Records'', Ref 1)] ''Records'' = Some (Ref 1)"
    "1 < length example_heap"
    "example_heap ! 1 = HArr [Ref 2, Ref 3]"
    "1 < length [Ref 2, Ref 3 :: hvalue]"
    "2 \<le> length [Ref 2, Ref 3 :: hvalue]"
    by (simp_all add: example_heap_def)
  note T = fan_out_leaves_event_unchanged[OF pre run]
  from T have frame: "take (length example_heap) (snd (fan_out_heap example_heap 0 [0..<2])) = example_heap"
    by (simp only: run snd_conv)
  have second: "(1::nat) < 2" by simp
  from T[THEN conjunct2, THEN conjunct2, THEN conjunct2, THEN conjunct2, THEN conjunct2,
         THEN conjunct2, rule_format, OF whole, THEN conjunct2, rule_format, OF second]
  obtain xs where
    "get_Records (JObj [(''Type'', JStr ''batch''),
        (''Records'', JArr [JObj [(''Sns'', JStr ''a'')], JObj [(''Sns'', JStr ''b'')]])])
       = Inr (JArr xs)"
    and "reify 3 (snd (fan_out_heap example_heap 0 [0..<2])) (Ref 7) =
       Some (singleRecordEvent (JObj [(''Type'', JStr ''batch''),
        (''Records'', JArr [JObj [(''Sns'', JStr ''a'')], JObj [(''Sns'', JStr ''b'')]])]) (xs ! 1))"
    by (auto simp add: run)
  then have "reify 3 (snd (fan_out_heap example_heap 0 [0..<2])) (Ref 7) =
       Some (JObj [(''Type'', JStr ''batch''), (''Records'', JArr [JObj [(''Sns'', JStr ''b'')]])])"
    by (auto simp add: singleRecordEvent_def assign_def)
  with run frame whole show ?thesis by simp
qed

end
